theory Spec2Isabelle
  imports Main "HOL-Library.Char_ord" "HOL-Library.List_Lexorder" "HOL-Library.Multiset"
    "HOL-Library.Sublist" "HOL-Library.Monad_Syntax"
begin

section \<open>Data model (LoggerInternal.h)\<close>

text \<open>
  \<^verbatim>\<open>struct SEContext\<close> wraps one string, \<^verbatim>\<open>m_context\<close>; its equality is equality of
  that string. \<^verbatim>\<open>struct AvcContext\<close> is a record of the same fields as the source.
  The \<^verbatim>\<open>std::set<std::string> operation\<close> is a set of strings; its iteration order
  (ascending, by unsigned bytes) is recovered with \<open>sorted_list_of_set\<close> where the
  source iterates. \<^verbatim>\<open>std::map<std::string, std::string>\<close> is a partial map.
\<close>

datatype SEContext = MkSEContext (m_context: string)

type_synonym AttributeMap = "string \<rightharpoonup> string"

record AvcContext =
  granted :: bool
  operation :: "string set"
  scontext :: SEContext
  tcontext :: SEContext
  tclass :: string
  misc_attributes :: AttributeMap
  permissive :: bool
  stale :: bool

section \<open>Characters and strings of the C++ library\<close>

text \<open>
  \<^verbatim>\<open>isspace\<close> in the C locale, the decimal digits, and the class \<^verbatim>\<open>\w\<close> of
  \<^verbatim>\<open>std::regex\<close>. Characters are bytes, ordered by their code.
\<close>

definition isspace :: "char \<Rightarrow> bool" where
  "isspace c \<longleftrightarrow> c = CHR '' '' \<or> c = CHR 0x09 \<or> c = CHR 0x0A \<or> c = CHR 0x0B
                 \<or> c = CHR 0x0C \<or> c = CHR 0x0D"

definition is_digit :: "char \<Rightarrow> bool" where
  "is_digit c \<longleftrightarrow> CHR ''0'' \<le> c \<and> c \<le> CHR ''9''"

definition is_word :: "char \<Rightarrow> bool" where
  "is_word c \<longleftrightarrow> (CHR ''a'' \<le> c \<and> c \<le> CHR ''z'') \<or> (CHR ''A'' \<le> c \<and> c \<le> CHR ''Z'')
                 \<or> is_digit c \<or> c = CHR ''_''"

text \<open>
  \<^verbatim>\<open>s.find(pat)\<close>: the first position at which \<open>pat\<close> occurs in \<open>s\<close>, \<open>None\<close> for
  \<^verbatim>\<open>npos\<close>. \<^verbatim>\<open>s.find(c)\<close> for a single character likewise.
\<close>

fun find_sub :: "string \<Rightarrow> string \<Rightarrow> nat option" where
  "find_sub pat [] = (if pat = [] then Some 0 else None)"
| "find_sub pat (c # cs) =
     (if prefix pat (c # cs) then Some 0 else map_option Suc (find_sub pat cs))"

definition find_char :: "char \<Rightarrow> string \<Rightarrow> nat option" where
  "find_char c s = (if c \<in> set s then Some (length (takeWhile (\<lambda>x. x \<noteq> c) s)) else None)"

text \<open>
  \<^verbatim>\<open>while (iss >> line) lines.emplace_back(line);\<close> Each extraction skips leading white
  space and reads up to the next white space; it fails, ending the loop, when nothing
  but white space is left.
\<close>

function tokens :: "string \<Rightarrow> string list" where
  "tokens s =
     (let s1 = dropWhile isspace s
      in if s1 = [] then []
         else takeWhile (\<lambda>c. \<not> isspace c) s1 # tokens (dropWhile (\<lambda>c. \<not> isspace c) s1))"
  by pat_completeness auto

termination
proof (relation "measure length")
  fix s s1 :: string
  assume s1: "s1 = dropWhile isspace s" and ne: "s1 \<noteq> []"
  then have "\<not> isspace (hd s1)" by (metis hd_dropWhile)
  with ne have "dropWhile (\<lambda>c. \<not> isspace c) s1 = dropWhile (\<lambda>c. \<not> isspace c) (tl s1)"
    by (cases s1) auto
  then have "length (dropWhile (\<lambda>c. \<not> isspace c) s1) \<le> length (tl s1)"
    by (metis length_dropWhile_le)
  also have "\<dots> < length s1" using ne by (cases s1) auto
  also have "\<dots> \<le> length s" unfolding s1 by (rule length_dropWhile_le)
  finally show "(dropWhile (\<lambda>c. \<not> isspace c) s1, s) \<in> measure length" by simp
qed simp

declare tokens.simps [simp del]

section \<open>TrimDoubleQuote and SEContext (AuditToAllow.cpp)\<close>

definition TrimDoubleQuote :: "string \<Rightarrow> string" where
  "TrimDoubleQuote str =
     (if length str > 2 then
        (if hd str = CHR 0x22 \<and> last str = CHR 0x22
         then take (length str - 2) (drop 1 str)
         else str)
      else str)"

text \<open>
  Matching steps for the regular expressions of the source. Each step takes the text
  still to be matched and returns what is left after it, or \<open>None\<close>: a literal, an
  optional literal, one character of a class, and a maximal non-empty run of a class
  (\<^verbatim>\<open>+\<close>). In every pattern below the character that must follow a run is outside the
  class of the run, and an optional part that is present cannot be skipped, so no shorter
  run and no other choice can lead to a match: the greedy left-to-right scan decides the
  match, and finds the sub-matches, exactly as the backtracking matcher does.
\<close>

definition lit :: "string \<Rightarrow> string \<Rightarrow> string option" where
  "lit p s = (if prefix p s then Some (drop (length p) s) else None)"

definition opt_lit :: "string \<Rightarrow> string \<Rightarrow> string option" where
  "opt_lit p s = (if prefix p s then Some (drop (length p) s) else Some s)"

definition one_of :: "(char \<Rightarrow> bool) \<Rightarrow> string \<Rightarrow> string option" where
  "one_of P s = (case s of [] \<Rightarrow> None | c # r \<Rightarrow> if P c then Some r else None)"

definition many1 :: "(char \<Rightarrow> bool) \<Rightarrow> string \<Rightarrow> string option" where
  "many1 P s = (if takeWhile P s = [] then None else Some (dropWhile P s))"

text \<open>
  \<^verbatim>\<open>kSEContextRegex = ^u:(object_)?r:([\w-]+):s0(.+)?$\<close>, used with \<^verbatim>\<open>regex_match\<close>: the
  whole string must match; the result is sub-match 2. The dot matches any character but
  a line terminator.
\<close>

definition is_name_char :: "char \<Rightarrow> bool" where
  "is_name_char c \<longleftrightarrow> is_word c \<or> c = CHR ''-''"

definition is_line_terminator :: "char \<Rightarrow> bool" where
  "is_line_terminator c \<longleftrightarrow> c = CHR 0x0A \<or> c = CHR 0x0D"

definition kSEContextRegex :: "string \<Rightarrow> string option" where
  "kSEContextRegex s =
     (case Option.bind (lit ''u:'' s) (\<lambda>s. Option.bind (opt_lit ''object_'' s) (lit ''r:'')) of
        None \<Rightarrow> None
      | Some s3 \<Rightarrow>
          (case Option.bind (many1 is_name_char s3) (lit '':s0'') of
             None \<Rightarrow> None
           | Some s5 \<Rightarrow>
               if list_all (\<lambda>c. \<not> is_line_terminator c) s5
               then Some (takeWhile is_name_char s3) else None))"

definition SEContext_ctor :: "string \<Rightarrow> SEContext" where
  "SEContext_ctor context =
     (case kSEContextRegex context of
        Some name \<Rightarrow> MkSEContext name
      | None \<Rightarrow> MkSEContext context)"

section \<open>Integer extraction\<close>

text \<open>
  \<^verbatim>\<open>std::stringstream(s) >> x\<close> for \<^verbatim>\<open>int x\<close>, as the C++ standard library does it:
  leading white space is skipped, an optional sign and then a maximal run of decimal
  digits is read; the extraction fails when there is no digit or when the value does not
  fit a 32-bit \<^verbatim>\<open>int\<close>. Characters after the digits are left unread.
\<close>

definition digit_val :: "char \<Rightarrow> int" where
  "digit_val c = int (of_char c) - 48"

definition decimal :: "string \<Rightarrow> int" where
  "decimal ds = foldl (\<lambda>acc c. 10 * acc + digit_val c) 0 ds"

definition extract_int :: "string \<Rightarrow> int option" where
  "extract_int s =
     (let s1 = dropWhile isspace s;
          neg = (s1 \<noteq> [] \<and> hd s1 = CHR ''-'');
          s2 = (if s1 \<noteq> [] \<and> (hd s1 = CHR ''-'' \<or> hd s1 = CHR ''+'') then tl s1 else s1);
          ds = takeWhile is_digit s2;
          v = (if neg then - decimal ds else decimal ds)
      in if ds = [] then None
         else if v < - 2147483648 \<or> 2147483647 < v then None
         else Some v)"

section \<open>The record parser (AuditToAllow.cpp, \<^verbatim>\<open>AvcContext::AvcContext\<close>)\<close>

text \<open>
  The constructor always leaves an object behind; a failed parse is an object whose
  \<^verbatim>\<open>stale\<close> flag is still set. What C++ leaves undefined is a fault of the model:
  \<^verbatim>\<open>substr\<close> past the end throws \<^verbatim>\<open>std::out_of_range\<close>, and an iterator that is
  dereferenced at, or incremented beyond, \<^verbatim>\<open>lines.end()\<close> is \<open>PastTheEnd\<close>.
\<close>

datatype fault = OutOfRange | PastTheEnd

text \<open>
  \<^verbatim>\<open>misc_attributes.emplace(k, v)\<close> inserts only when the key is absent. The body of the
  attribute loop skips a token without \<^verbatim>\<open>=\<close>.
\<close>

definition emplace :: "string \<Rightarrow> string \<Rightarrow> AttributeMap \<Rightarrow> AttributeMap" where
  "emplace k v m = (if m k = None then m(k \<mapsto> v) else m)"

definition add_attribute :: "string \<Rightarrow> AttributeMap \<Rightarrow> AttributeMap" where
  "add_attribute tok m =
     (case find_char CHR ''='' tok of
        None \<Rightarrow> m
      | Some idx \<Rightarrow> emplace (take idx tok) (TrimDoubleQuote (drop (Suc idx) tok)) m)"

text \<open>
  \<^verbatim>\<open>findOrDie(dest, key)\<close>: the value found (to be assigned to \<^verbatim>\<open>dest\<close>) and the map
  with the key erased, or \<open>None\<close> and the map unchanged.
\<close>

definition findOrDie :: "AttributeMap \<Rightarrow> string \<Rightarrow> string option \<times> AttributeMap" where
  "findOrDie m key = (case m key of Some v \<Rightarrow> (Some v, m(key := None)) | None \<Rightarrow> (None, m))"

text \<open>
  Lines 63 to 99 of the constructor: the attribute loop over the tokens from \<^verbatim>\<open>it\<close> to
  the end, the four required keys, and the permissive value. \<^verbatim>\<open>pit\<close> is looked up
  before the three \<^verbatim>\<open>findOrDie\<close> calls, all three of which run whatever the earlier
  ones returned.
\<close>

definition parse_attributes :: "AvcContext \<Rightarrow> string list \<Rightarrow> AvcContext" where
  "parse_attributes self it =
     (let m0 = fold add_attribute it (misc_attributes self);
          pit = m0 ''permissive'';
          (sc, m1) = findOrDie m0 ''scontext'';
          (tc, m2) = findOrDie m1 ''tcontext'';
          (cl, m3) = findOrDie m2 ''tclass'';
          self1 = self\<lparr>scontext := (case sc of Some v \<Rightarrow> SEContext_ctor v | None \<Rightarrow> scontext self),
                       tcontext := (case tc of Some v \<Rightarrow> SEContext_ctor v | None \<Rightarrow> tcontext self),
                       tclass := (case cl of Some v \<Rightarrow> v | None \<Rightarrow> tclass self),
                       misc_attributes := m3\<rparr>
      in if sc \<noteq> None \<and> tc \<noteq> None \<and> cl \<noteq> None then
           (case pit of
              None \<Rightarrow> self1
            | Some pv \<Rightarrow>
                (case extract_int pv of
                   None \<Rightarrow> self1
                 | Some x \<Rightarrow>
                     if x = 0 \<or> x = 1
                     then self1\<lparr>permissive := (x = 1),
                                misc_attributes := m3(''permissive'' := None),
                                stale := False\<rparr>
                     else self1))
         else self1)"

text \<open>
  An iterator into \<^verbatim>\<open>lines\<close> is the list of tokens from its position on: \<^verbatim>\<open>*it\<close> is the
  head, \<^verbatim>\<open>++it\<close> the tail, \<^verbatim>\<open>it == lines.end()\<close> the empty list.
  \<^verbatim>\<open>do { operation.insert(*it); } while (*(++it) != "}");\<close> returns the iterator at the
  closing brace and the operations collected.
\<close>

fun ops_loop :: "string list \<Rightarrow> string set \<Rightarrow> fault + (string list \<times> string set)" where
  "ops_loop [] ops = Inl PastTheEnd"
| "ops_loop (t # it) ops =
     (case it of
        [] \<Rightarrow> Inl PastTheEnd
      | n # _ \<Rightarrow> if n \<noteq> ''}'' then ops_loop it (insert t ops) else Inr (it, insert t ops))"

text \<open>
  Lines 52 to 62: from the iterator behind the status token, skip the opening brace, run
  the operation loop, skip the closing brace and \<^verbatim>\<open>for\<close>, and return early when no
  token is left.
\<close>

definition parse_body :: "AvcContext \<Rightarrow> string list \<Rightarrow> fault + AvcContext" where
  "parse_body self it2 =
     (case it2 of
        [] \<Rightarrow> Inl PastTheEnd
      | _ # it3 \<Rightarrow>
          (case ops_loop it3 (operation self) of
             Inl e \<Rightarrow> Inl e
           | Inr (it4, ops) \<Rightarrow>
               (case it4 of
                  [] \<Rightarrow> Inl PastTheEnd
                | _ # it5 \<Rightarrow>
                    (case it5 of
                       [] \<Rightarrow> Inl PastTheEnd
                     | _ # it6 \<Rightarrow>
                         if it6 = [] then Inr (self\<lparr>operation := ops\<rparr>)
                         else Inr (parse_attributes (self\<lparr>operation := ops\<rparr>) it6)))))"

text \<open>
  The object before the constructor body runs: \<^verbatim>\<open>stale(true)\<close>, empty containers and
  strings. \<^verbatim>\<open>granted\<close> and \<^verbatim>\<open>permissive\<close> have no initialiser; \<open>g0\<close> and \<open>p0\<close> stand
  for whatever the storage holds.
\<close>

definition AvcContext_init :: "bool \<Rightarrow> bool \<Rightarrow> AvcContext" where
  "AvcContext_init g0 p0 =
     \<lparr>granted = g0, operation = {}, scontext = MkSEContext [], tcontext = MkSEContext [],
      tclass = [], misc_attributes = Map.empty, permissive = p0, stale = True\<rparr>"

definition parse_tokens :: "bool \<Rightarrow> bool \<Rightarrow> string list \<Rightarrow> fault + AvcContext" where
  "parse_tokens g0 p0 lines =
     (case lines of
        [] \<Rightarrow> Inl PastTheEnd
      | _ # it1 \<Rightarrow>
          (case it1 of
             [] \<Rightarrow> Inl PastTheEnd
           | status # it2 \<Rightarrow>
               if status = ''granted'' then parse_body ((AvcContext_init g0 p0)\<lparr>granted := True\<rparr>) it2
               else if status = ''denied'' then parse_body ((AvcContext_init g0 p0)\<lparr>granted := False\<rparr>) it2
               else Inr (AvcContext_init g0 p0)))"

definition AvcContext_ctor :: "bool \<Rightarrow> bool \<Rightarrow> string \<Rightarrow> fault + AvcContext" where
  "AvcContext_ctor g0 p0 string =
     (case find_sub ''avc:'' string of
        None \<Rightarrow> Inl OutOfRange
      | Some pos \<Rightarrow> parse_tokens g0 p0 (tokens (drop pos string)))"

section \<open>The merge operator (AuditToAllow.cpp, \<^verbatim>\<open>AvcContext::operator+=\<close>)\<close>

text \<open>
  \<^verbatim>\<open>a += b\<close> may write to both objects: the pair returned is (new \<^verbatim>\<open>*this\<close>, new
  \<^verbatim>\<open>other\<close>). The two are distinct objects; the only caller skips \<^verbatim>\<open>&e1 == &e2\<close>.
\<close>

definition mergable :: "AvcContext \<Rightarrow> AvcContext \<Rightarrow> bool" where
  "mergable a b \<longleftrightarrow>
     granted a = granted b \<and> scontext a = scontext b \<and>
     tcontext a = tcontext b \<and> tclass a = tclass b"

definition plus_eq :: "AvcContext \<Rightarrow> AvcContext \<Rightarrow> AvcContext \<times> AvcContext" where
  "plus_eq a b =
     (if \<not> stale a \<and> \<not> stale b then
        (if mergable a b
         then (a\<lparr>operation := operation a \<union> operation b\<rparr>, b\<lparr>stale := True\<rparr>)
         else (a, b))
      else (a, b))"

section \<open>The all-pairs merge sweep (Logger.cpp, \<^verbatim>\<open>main\<close>)\<close>

text \<open>
  \<^verbatim>\<open>for (auto &e1 : v) for (auto &e2 : v) { if (&e1 == &e2) continue; e1 += e2; }\<close>
  The vector is a list updated in place; \<^verbatim>\<open>e1\<close> and \<^verbatim>\<open>e2\<close> are the elements at
  positions \<open>i\<close> and \<open>j\<close>, both below the length, which no step changes.
\<close>

definition merge_pair :: "nat \<Rightarrow> nat \<Rightarrow> AvcContext list \<Rightarrow> AvcContext list" where
  "merge_pair i j v =
     (if i = j then v
      else (case plus_eq (v ! i) (v ! j) of (a, b) \<Rightarrow> (v[i := a])[j := b]))"

definition merge_row :: "nat \<Rightarrow> AvcContext list \<Rightarrow> AvcContext list" where
  "merge_row i v = fold (merge_pair i) [0..<length v] v"

definition merge_sweep :: "AvcContext list \<Rightarrow> AvcContext list" where
  "merge_sweep v = fold merge_row [0..<length v] v"

section \<open>The rule synthesizer (AuditToAllow.cpp, the two \<^verbatim>\<open>operator<<\<close>)\<close>

text \<open>
  \<^verbatim>\<open>operator<<(std::ostream&, const AvcContext&)\<close>: the text appended to the stream.
  \<^verbatim>\<open>operation.size()\<close> is \<open>card\<close>, \<^verbatim>\<open>*operation.begin()\<close> is the least element, and
  the range-for runs over the set in ascending order.
\<close>

definition render_AvcContext :: "AvcContext \<Rightarrow> string" where
  "render_AvcContext c =
     (if stale c \<or> card (operation c) = 0 then []
      else if ''sys_admin'' \<in> operation c then []
      else ''allow '' @ m_context (scontext c) @ '' '' @ m_context (tcontext c) @ '':''
           @ tclass c @ '' ''
           @ (if card (operation c) = 1 then hd (sorted_list_of_set (operation c))
              else ''{ '' @ concat (map (\<lambda>op. op @ '' '') (sorted_list_of_set (operation c)))
                   @ ''}'')
           @ '';'')"

text \<open>
  \<^verbatim>\<open>operator<<(std::ostream&, const AvcContexts&)\<close>: every entry is rendered into a fresh
  string stream followed by \<^verbatim>\<open>std::endl\<close>, and that string is inserted into the
  \<^verbatim>\<open>std::set<std::string> rules\<close>; the set is then written out in its own order.
  Here the order of the container matters, so \<^verbatim>\<open>rules\<close> is the list of its elements in
  iteration order, and \<^verbatim>\<open>rules.insert\<close> puts a string that is not yet there at its
  place in that order.
\<close>

definition rule_line :: "AvcContext \<Rightarrow> string" where
  "rule_line c = render_AvcContext c @ [CHR 0x0A]"

fun rules_insert :: "string \<Rightarrow> string list \<Rightarrow> string list" where
  "rules_insert x [] = [x]"
| "rules_insert x (y # ys) =
     (if x = y then y # ys
      else if x < y then x # y # ys
      else y # rules_insert x ys)"

definition collect_rules :: "AvcContext list \<Rightarrow> string list" where
  "collect_rules cs = fold (\<lambda>entry rules. rules_insert (rule_line entry) rules) cs []"

definition render_AvcContexts :: "AvcContext list \<Rightarrow> string" where
  "render_AvcContexts cs = concat (collect_rules cs)"

section \<open>The filters (Logger.cpp)\<close>

text \<open>
  \<^verbatim>\<open>kAvcMessageRegEX = avc:\s+denied\s+\{(\s\w+)+\s\}\sfor\s\<close>, matched at the start of
  the text given; the result is the text left after the match. \<open>ops_group\<close> is one
  \<^verbatim>\<open>(\s\w+)\<close>, \<open>ops_groups\<close> takes as many further groups as there are.
\<close>

definition ops_group :: "string \<Rightarrow> string option" where
  "ops_group s = one_of isspace s \<bind> many1 is_word"

function ops_groups :: "string \<Rightarrow> string" where
  "ops_groups s = (case ops_group s of None \<Rightarrow> s | Some r \<Rightarrow> ops_groups r)"
  by pat_completeness auto

termination
proof (relation "measure length")
  fix s r :: string
  assume "ops_group s = Some r"
  then obtain c s' where "s = c # s'" "r = dropWhile is_word s'"
    by (auto simp: ops_group_def one_of_def many1_def split: list.splits if_splits)
  then have "length r \<le> length s'" "length s' < length s"
    by (simp_all add: length_dropWhile_le)
  then show "(r, s) \<in> measure length" by simp
qed simp

declare ops_groups.simps [simp del]

definition kAvcMessageRegEX :: "string \<Rightarrow> string option" where
  "kAvcMessageRegEX s =
     lit ''avc:'' s \<bind> many1 isspace \<bind> lit ''denied'' \<bind> many1 isspace \<bind> lit ''{''
       \<bind> ops_group \<bind> (\<lambda>r. Some (ops_groups r))
       \<bind> one_of isspace \<bind> lit ''}'' \<bind> one_of isspace \<bind> lit ''for'' \<bind> one_of isspace"

text \<open>
  \<^verbatim>\<open>std::regex_search\<close>: the match at the leftmost position where the pattern matches.
\<close>

fun regex_search :: "(string \<Rightarrow> 'a option) \<Rightarrow> string \<Rightarrow> 'a option" where
  "regex_search rx [] = rx []"
| "regex_search rx (c # cs) = (case rx (c # cs) of Some m \<Rightarrow> Some m | None \<Rightarrow> regex_search rx cs)"

text \<open>
  \<^verbatim>\<open>AvcFilterContext::filter\<close>. \<^verbatim>\<open>_ctx\<close> is the shared collection, \<open>None\<close> for a null
  pointer; \<^verbatim>\<open>_ctx->emplace_back(line)\<close> constructs an \<^verbatim>\<open>AvcContext\<close> from the line at
  the end of the vector. The result is the value returned and the collection afterwards.
\<close>

definition AvcFilterContext_filter ::
    "AvcContext list option \<Rightarrow> bool \<Rightarrow> bool \<Rightarrow> string \<Rightarrow> fault + (bool \<times> AvcContext list option)" where
  "AvcFilterContext_filter ctx g0 p0 line =
     (let match = (regex_search kAvcMessageRegEX line \<noteq> None
                   \<and> find_sub ''untrusted_app'' line = None)
      in case ctx of
           None \<Rightarrow> Inr (match, ctx)
         | Some v \<Rightarrow>
             if match then
               (case AvcContext_ctor g0 p0 line of
                  Inl e \<Rightarrow> Inl e
                | Inr entry \<Rightarrow> Inr (match, Some (v @ [entry])))
             else Inr (match, ctx))"

text \<open>
  \<^verbatim>\<open>kPropertyAccessRegEX =\<close>
  \<^verbatim>\<open>libc\s+:\s+\w+\s\w+\s\w+\s\w+\s(\"[a-zA-z.]+\")( to \"([a-zA-z0-9.@:\/]+)\")?\<close>.
  The result of a match is the \<^verbatim>\<open>std::smatch\<close>: the list of its sub-matches, the whole
  match first, then one entry for each of the three marked groups of the pattern, empty
  for a group that took no part in the match. \<^verbatim>\<open>kPropMatch.size()\<close> is the length of
  that list and \<^verbatim>\<open>kPropMatch.str(n)\<close> its \<open>n\<close>-th entry, empty when out of range.
\<close>

definition is_prop_char :: "char \<Rightarrow> bool" where
  "is_prop_char c \<longleftrightarrow> (CHR ''a'' \<le> c \<and> c \<le> CHR ''z'') \<or> (CHR ''A'' \<le> c \<and> c \<le> CHR ''z'')
                      \<or> c = CHR ''.''"

definition is_dest_char :: "char \<Rightarrow> bool" where
  "is_dest_char c \<longleftrightarrow> (CHR ''a'' \<le> c \<and> c \<le> CHR ''z'') \<or> (CHR ''A'' \<le> c \<and> c \<le> CHR ''z'')
                      \<or> is_digit c \<or> c = CHR ''.'' \<or> c = CHR ''@'' \<or> c = CHR '':''
                      \<or> c = CHR ''/''"

definition quoted :: "(char \<Rightarrow> bool) \<Rightarrow> string \<Rightarrow> (string \<times> string) option" where
  "quoted P s =
     (case lit [CHR 0x22] s of
        None \<Rightarrow> None
      | Some r \<Rightarrow>
          (case many1 P r \<bind> lit [CHR 0x22] of
             None \<Rightarrow> None
           | Some r' \<Rightarrow> Some (takeWhile P r, r')))"

definition prop_head :: "string \<Rightarrow> string option" where
  "prop_head s =
     lit ''libc'' s \<bind> many1 isspace \<bind> lit '':'' \<bind> many1 isspace
       \<bind> many1 is_word \<bind> one_of isspace \<bind> many1 is_word \<bind> one_of isspace
       \<bind> many1 is_word \<bind> one_of isspace \<bind> many1 is_word \<bind> one_of isspace"

definition kPropertyAccessRegEX :: "string \<Rightarrow> string list option" where
  "kPropertyAccessRegEX s =
     (case prop_head s \<bind> quoted is_prop_char of
        None \<Rightarrow> None
      | Some (name, r2) \<Rightarrow>
          (case lit '' to '' r2 \<bind> quoted is_dest_char of
             Some (dest, r4) \<Rightarrow>
               Some [take (length s - length r4) s,
                     [CHR 0x22] @ name @ [CHR 0x22],
                     '' to '' @ [CHR 0x22] @ dest @ [CHR 0x22],
                     dest]
           | None \<Rightarrow>
               Some [take (length s - length r2) s, [CHR 0x22] @ name @ [CHR 0x22], [], []]))"

definition str :: "string list \<Rightarrow> nat \<Rightarrow> string" where
  "str m n = (if n < length m then m ! n else [])"

text \<open>
  \<^verbatim>\<open>libcPropFilterContext::filter\<close>, with the function-local static set
  \<^verbatim>\<open>propsDenied\<close> passed in and returned.
\<close>

definition libcPropFilterContext_filter :: "string set \<Rightarrow> string \<Rightarrow> bool \<times> string set" where
  "libcPropFilterContext_filter propsDenied line =
     (case regex_search kPropertyAccessRegEX line of
        Some kPropMatch \<Rightarrow>
          if length kPropMatch = 3 then (True, propsDenied)
          else if length kPropMatch = 1 then
            (let propString = str kPropMatch 1
             in if propString \<in> propsDenied then (False, propsDenied)
                else (True, insert propString propsDenied))
          else (False, propsDenied)
      | None \<Rightarrow> (False, propsDenied))"

section \<open>Denial lines of the documented shape\<close>

text \<open>
  A denial line is a prefix without the marker, then the tokens \<^verbatim>\<open>avc:\<close>, the status,
  \<^verbatim>\<open>{\<close>, the operation names, \<^verbatim>\<open>}\<close>, \<^verbatim>\<open>for\<close> and one token \<^verbatim>\<open>key=value\<close> for each
  attribute, with a separator of white space between neighbours, then trailing white
  space. \<open>collected\<close> is the map the attribute tokens denote: the first pair of a key
  counts, and values have gone through \<^verbatim>\<open>TrimDoubleQuote\<close>.
\<close>

fun interleave :: "string list \<Rightarrow> string list \<Rightarrow> string" where
  "interleave [] seps = []"
| "interleave [t] seps = t"
| "interleave (t # t' # ts) seps =
     t @ (case seps of [] \<Rightarrow> [] | sep # _ \<Rightarrow> sep) @ interleave (t' # ts) (tl seps)"

definition attr_token :: "string \<times> string \<Rightarrow> string" where
  "attr_token kv = fst kv @ ''='' @ snd kv"

definition denial_tokens :: "string \<Rightarrow> string list \<Rightarrow> (string \<times> string) list \<Rightarrow> string list" where
  "denial_tokens status ops kvs =
     ''avc:'' # status # ''{'' # ops @ ''}'' # ''for'' # map attr_token kvs"

definition is_token :: "string \<Rightarrow> bool" where
  "is_token t \<longleftrightarrow> t \<noteq> [] \<and> list_all (\<lambda>c. \<not> isspace c) t"

definition is_separator :: "string \<Rightarrow> bool" where
  "is_separator sep \<longleftrightarrow> sep \<noteq> [] \<and> list_all isspace sep"

definition collected :: "(string \<times> string) list \<Rightarrow> AttributeMap" where
  "collected kvs = map_of (map (\<lambda>kv. (fst kv, TrimDoubleQuote (snd kv))) kvs)"

definition required_keys :: "string set" where
  "required_keys = {''scontext'', ''tcontext'', ''tclass'', ''permissive''}"

text \<open>
  A label is canonical with short name \<open>name\<close> when it is \<^verbatim>\<open>u:r:\<close> or \<^verbatim>\<open>u:object_r:\<close>,
  then \<open>name\<close>, a non-empty string of letters, digits, underscores and dashes, then
  \<^verbatim>\<open>:s0\<close>, then any text without a line terminator.
\<close>

definition label_tail :: "string \<Rightarrow> string \<Rightarrow> string \<Rightarrow> bool" where
  "label_tail head name s \<longleftrightarrow>
     (case lit (head @ name @ '':s0'') s of
        None \<Rightarrow> False
      | Some extra \<Rightarrow> list_all (\<lambda>c. \<not> is_line_terminator c) extra)"

definition canonical_label :: "string \<Rightarrow> string \<Rightarrow> bool" where
  "canonical_label s name \<longleftrightarrow>
     name \<noteq> [] \<and> list_all is_name_char name \<and>
     (label_tail ''u:r:'' name s \<or> label_tail ''u:object_r:'' name s)"

text \<open>
  The texts the denial pattern matches, written out: \<^verbatim>\<open>avc:\<close>, white space, \<^verbatim>\<open>denied\<close>,
  white space, \<^verbatim>\<open>{\<close>, one or more groups of a white-space character and a word, then
  a white-space character, \<^verbatim>\<open>}\<close>, a white-space character, \<^verbatim>\<open>for\<close> and a
  white-space character. A white-space run is non-empty (\<open>is_separator\<close> below).
\<close>

definition group_text :: "char \<times> string \<Rightarrow> string" where
  "group_text g = fst g # snd g"

definition is_group :: "char \<times> string \<Rightarrow> bool" where
  "is_group g \<longleftrightarrow> isspace (fst g) \<and> snd g \<noteq> [] \<and> list_all is_word (snd g)"

definition avc_match_text :: "string \<Rightarrow> string \<Rightarrow> (char \<times> string) list \<Rightarrow> char \<Rightarrow> char \<Rightarrow> char \<Rightarrow> string" where
  "avc_match_text ws1 ws2 groups a b c =
     ''avc:'' @ ws1 @ ''denied'' @ ws2 @ ''{'' @ concat (map group_text groups)
       @ [a] @ ''}'' @ [b] @ ''for'' @ [c]"

section \<open>Lines the constructor can parse\<close>

text \<open>
  \<open>marker_tokens\<close> are the tokens of the line from the first marker on. A line is
  \<open>parseable\<close> when it has the marker and a status token after it and, if the status is
  \<^verbatim>\<open>granted\<close> or \<^verbatim>\<open>denied\<close>, at least two more tokens (the opening brace and a first
  operation) after which a token \<^verbatim>\<open>}\<close> occurs whose first occurrence is not the last
  token of the line.
\<close>

definition marker_tokens :: "string \<Rightarrow> string list" where
  "marker_tokens line =
     (case find_sub ''avc:'' line of None \<Rightarrow> [] | Some pos \<Rightarrow> tokens (drop pos line))"

definition closes_after :: "string list \<Rightarrow> bool" where
  "closes_after A \<longleftrightarrow>
     (case dropWhile (\<lambda>t. t \<noteq> ''}'') A of [] \<Rightarrow> False | _ # r \<Rightarrow> r \<noteq> [])"

definition parseable :: "string \<Rightarrow> bool" where
  "parseable line \<longleftrightarrow>
     (case marker_tokens line of
        _ # status # rest \<Rightarrow>
          (status \<noteq> ''granted'' \<and> status \<noteq> ''denied'')
          \<or> (case rest of _ # _ # A \<Rightarrow> closes_after A | _ \<Rightarrow> False)
      | _ \<Rightarrow> False)"

section \<open>Auxiliary notions for the merge proofs\<close>

text \<open>
  The merge key of a record is the tuple of fields \<^verbatim>\<open>operator+=\<close> compares. For a
  collection, \<open>live_keys\<close> are the keys of its records that are not stale and
  \<open>class_ops\<close> is the union of the operations of the live records with a given key.
  \<open>evolves\<close> relates two states of the vector during the sweep, and \<open>settled\<close> says
  that a pair of positions can no longer merge.
\<close>

definition merge_key :: "AvcContext \<Rightarrow> bool \<times> SEContext \<times> SEContext \<times> string" where
  "merge_key c = (granted c, scontext c, tcontext c, tclass c)"

definition live_keys :: "AvcContext list \<Rightarrow> (bool \<times> SEContext \<times> SEContext \<times> string) set" where
  "live_keys v = {merge_key (v ! k) | k. k < length v \<and> \<not> stale (v ! k)}"

definition class_ops :: "AvcContext list \<Rightarrow> bool \<times> SEContext \<times> SEContext \<times> string \<Rightarrow> string set" where
  "class_ops v K = \<Union> {operation (v ! k) | k. k < length v \<and> \<not> stale (v ! k) \<and> merge_key (v ! k) = K}"

definition evolves :: "AvcContext list \<Rightarrow> AvcContext list \<Rightarrow> bool" where
  "evolves v w \<longleftrightarrow>
     length w = length v \<and>
     (\<forall>k<length v. merge_key (w ! k) = merge_key (v ! k) \<and> (stale (v ! k) \<longrightarrow> stale (w ! k))) \<and>
     live_keys w = live_keys v \<and>
     (\<forall>K. class_ops w K = class_ops v K)"

definition settled :: "nat \<Rightarrow> nat \<Rightarrow> AvcContext list \<Rightarrow> bool" where
  "settled i j v \<longleftrightarrow> stale (v ! i) \<or> stale (v ! j) \<or> merge_key (v ! i) \<noteq> merge_key (v ! j)"

definition class_record :: "AvcContext list \<Rightarrow> bool \<times> SEContext \<times> SEContext \<times> string \<Rightarrow> AvcContext" where
  "class_record v K =
     (case K of (g, s, t, c) \<Rightarrow>
        \<lparr>granted = g, operation = class_ops v K, scontext = s, tcontext = t, tclass = c,
         misc_attributes = Map.empty, permissive = False, stale = False\<rparr>)"

section \<open>Example inputs\<close>

definition rec_ioctl :: AvcContext where
  "rec_ioctl = \<lparr>granted = False, operation = {''ioctl''}, scontext = MkSEContext ''mydomain'',
     tcontext = MkSEContext ''vendor_device'', tclass = ''chr_file'',
     misc_attributes = [''comm'' \<mapsto> ''bar''], permissive = False, stale = False\<rparr>"

definition rec_open :: AvcContext where
  "rec_open = \<lparr>granted = False, operation = {''open''}, scontext = MkSEContext ''mydomain'',
     tcontext = MkSEContext ''vendor_device'', tclass = ''chr_file'',
     misc_attributes = [''comm'' \<mapsto> ''baz''], permissive = True, stale = False\<rparr>"

definition rec_absorbed :: AvcContext where
  "rec_absorbed = \<lparr>granted = False, operation = {''read''}, scontext = MkSEContext ''mydomain'',
     tcontext = MkSEContext ''vendor_device'', tclass = ''chr_file'',
     misc_attributes = Map.empty, permissive = False, stale = True\<rparr>"

definition rec_admin :: AvcContext where
  "rec_admin = \<lparr>granted = False, operation = {''sys_admin'', ''read''},
     scontext = MkSEContext ''mydomain'', tcontext = MkSEContext ''mydomain'',
     tclass = ''capability'', misc_attributes = Map.empty, permissive = False, stale = False\<rparr>"

definition rec_noops :: AvcContext where
  "rec_noops = \<lparr>granted = False, operation = {}, scontext = MkSEContext ''mydomain'',
     tcontext = MkSEContext ''vendor_device'', tclass = ''chr_file'',
     misc_attributes = Map.empty, permissive = False, stale = False\<rparr>"

definition rec_unparsed :: AvcContext where
  "rec_unparsed = \<lparr>granted = False, operation = {''read''}, scontext = MkSEContext [],
     tcontext = MkSEContext [], tclass = [],
     misc_attributes = [''pid'' \<mapsto> ''1'', ''comm'' \<mapsto> ''init''],
     permissive = False, stale = True\<rparr>"

definition incomplete_line :: string where
  "incomplete_line = ''[   11.002] audit: avc:  denied  { read } for  pid=1 comm=init''"

definition kernel_prefix :: string where
  "kernel_prefix = ''[   12.345] type=1400 audit(1700000000.123:45): ''"

definition kernel_pairs :: "(string \<times> string) list" where
  "kernel_pairs =
     [(''pid'', ''612''), (''comm'', [CHR 0x22] @ ''bar'' @ [CHR 0x22]),
      (''scontext'', ''u:r:mydomain:s0''), (''tcontext'', ''u:object_r:vendor_device:s0''),
      (''tclass'', ''chr_file''), (''permissive'', ''0'')]"

definition kernel_separators :: "string list" where
  "kernel_separators =
     [''  '', ''  '', '' '', '' '', '' '', ''  '', '' '', '' '', '' '', '' '', '' '']"

definition prop_only_line :: string where
  "prop_only_line =
     ''01-01 00:00:07.123  612  612 W libc    : Access denied finding property ''
     @ [CHR 0x22] @ ''vendor.camera.aux'' @ [CHR 0x22]"

definition prop_dest_line :: string where
  "prop_dest_line =
     ''01-01 00:00:07.456  612  612 W libc    : Unable to set property ''
     @ [CHR 0x22] @ ''ctl.start'' @ [CHR 0x22] @ '' to ''
     @ [CHR 0x22] @ ''vendor.foo@1.0'' @ [CHR 0x22]"

definition grant_line :: string where
  "grant_line = ''avc: granted { read } for scontext=u:r:shell:s0 tcontext=u:object_r:vendor_file:s0 tclass=file permissive=1''"

definition rec_grant :: AvcContext where
  "rec_grant = \<lparr>granted = True, operation = {''read''}, scontext = MkSEContext ''shell'',
     tcontext = MkSEContext ''vendor_file'', tclass = ''file'',
     misc_attributes = Map.empty, permissive = True, stale = False\<rparr>"

section \<open>Evaluation\<close>

lemma tokens_Nil [simp]: "tokens [] = []"
  by (simp add: tokens.simps)

lemma tokens_Cons:
  "tokens (c # cs) =
     (if isspace c then tokens cs
      else (c # takeWhile (\<lambda>c. \<not> isspace c) cs) # tokens (dropWhile (\<lambda>c. \<not> isspace c) cs))"
  by (subst tokens.simps, subst (2) tokens.simps) simp

lemmas eval_defs = AvcContext_ctor_def parse_tokens_def parse_body_def AvcContext_init_def parse_attributes_def
  findOrDie_def add_attribute_def emplace_def find_char_def TrimDoubleQuote_def extract_int_def decimal_def digit_val_def
  SEContext_ctor_def kSEContextRegex_def lit_def opt_lit_def many1_def is_name_char_def is_word_def is_digit_def is_line_terminator_def
  tokens_Cons isspace_def

lemmas rx_defs = kAvcMessageRegEX_def ops_group_def ops_groups.simps one_of_def many1_def lit_def isspace_def is_word_def is_digit_def

lemmas prop_defs = kPropertyAccessRegEX_def prop_head_def quoted_def is_prop_char_def is_dest_char_def
  one_of_def many1_def lit_def isspace_def is_word_def is_digit_def

section \<open>Lemmas on tokens and on find\<close>

lemma tokens_space: "isspace w \<Longrightarrow> tokens (w # b) = tokens b"
  by (simp add: tokens_Cons)

lemma tokens_spaces: "list_all isspace ws \<Longrightarrow> tokens (ws @ b) = tokens b"
  by (induction ws) (simp_all add: tokens_space)

lemma tokens_word_space:
  assumes "a \<noteq> []" "list_all (\<lambda>c. \<not> isspace c) a" "isspace w"
  shows "tokens (a @ w # b) = a # tokens b"
proof -
  obtain c a' where a: "a = c # a'" using assms(1) by (cases a) auto
  have all: "\<forall>x\<in>set a'. \<not> isspace x" "\<not> isspace c"
    using assms(2) by (auto simp: a list_all_iff)
  have "takeWhile (\<lambda>c. \<not> isspace c) (a' @ w # b) = a'"
    using all(1) assms(3) by (simp add: takeWhile_append2)
  moreover have "dropWhile (\<lambda>c. \<not> isspace c) (a' @ w # b) = w # b"
    using all(1) assms(3) by (simp add: dropWhile_append2)
  ultimately show ?thesis
    using all(2) assms(3) by (simp add: a tokens_Cons)
qed

lemma tokens_word_end:
  assumes "a \<noteq> []" "list_all (\<lambda>c. \<not> isspace c) a"
  shows "tokens a = [a]"
proof -
  obtain c a' where a: "a = c # a'" using assms(1) by (cases a) auto
  have all: "\<forall>x\<in>set a'. \<not> isspace x" "\<not> isspace c"
    using assms(2) by (auto simp: a list_all_iff)
  have td: "takeWhile (\<lambda>c. \<not> isspace c) a' = a'" "dropWhile (\<lambda>c. \<not> isspace c) a' = []"
    using all(1) by simp_all
  have "tokens (c # a') = [c # a']"
    by (subst tokens_Cons) (simp only: td all(2) if_False tokens_Nil)
  then show ?thesis by (simp add: a)
qed

lemma tokens_split:
  assumes "isspace w"
  shows "tokens (a @ w # b) = tokens a @ tokens b"
proof (induction "length a" arbitrary: a rule: less_induct)
  case less
  show ?case
  proof (cases a)
    case Nil
    then show ?thesis using assms by (simp add: tokens_space)
  next
    case (Cons c a')
    show ?thesis
    proof (cases "isspace c")
      case True
      then show ?thesis using less[of a'] Cons by (simp add: tokens_Cons)
    next
      case False
      let ?run = "takeWhile (\<lambda>c. \<not> isspace c) a'"
      let ?rem = "dropWhile (\<lambda>c. \<not> isspace c) a'"
      show ?thesis
      proof (cases "?rem = []")
        case True
        then have na: "list_all (\<lambda>c. \<not> isspace c) a" "a \<noteq> []" using False Cons
          by (auto simp: list_all_iff dropWhile_eq_Nil_conv)
        show ?thesis
          using tokens_word_space[OF na(2) na(1) assms, of b] tokens_word_end[OF na(2) na(1)]
          by simp
      next
        case rem: False
        then obtain x where x: "x \<in> set a'" "\<not> \<not> isspace x"
          by (auto simp: dropWhile_eq_Nil_conv)
        have t: "takeWhile (\<lambda>c. \<not> isspace c) (a' @ w # b) = ?run"
          using x by (simp add: takeWhile_append1)
        have d: "dropWhile (\<lambda>c. \<not> isspace c) (a' @ w # b) = ?rem @ w # b"
          using x by (simp add: dropWhile_append1)
        have "length ?rem < length a" using Cons by (simp add: length_dropWhile_le le_imp_less_Suc)
        then have "tokens (?rem @ w # b) = tokens ?rem @ tokens b" by (rule less)
        then show ?thesis using False Cons t d by (simp add: tokens_Cons)
      qed
    qed
  qed
qed

lemma tokens_nonempty: "\<not> list_all isspace s \<Longrightarrow> tokens s \<noteq> []"
  by (induction s) (auto simp: tokens_Cons)

lemma find_sub_Some:
  "find_sub p s = Some pos \<Longrightarrow> pos \<le> length s \<and> prefix p (drop pos s)"
  by (induction s arbitrary: pos) (auto split: if_splits)

lemma find_sub_first:
  "prefix p (drop k s) \<Longrightarrow> k \<le> length s \<Longrightarrow> \<exists>pos\<le>k. find_sub p s = Some pos"
proof (induction s arbitrary: k)
  case Nil
  then show ?case by simp
next
  case (Cons c cs)
  show ?case
  proof (cases "prefix p (c # cs)")
    case True
    then show ?thesis by simp
  next
    case False
    then obtain k' where k: "k = Suc k'" using Cons.prems by (cases k) auto
    then obtain pos where "pos \<le> k'" "find_sub p cs = Some pos"
      using Cons.IH[of k'] Cons.prems by auto
    then show ?thesis using False k by auto
  qed
qed

lemma find_sub_marker:
  "find_sub ''avc:'' pre = None \<Longrightarrow> find_sub ''avc:'' (pre @ ''avc:'' @ rest) = Some (length pre)"
proof (induction pre)
  case Nil
  show ?case by simp
next
  case (Cons c cs)
  then have np: "\<not> prefix ''avc:'' (c # cs)" and r: "find_sub ''avc:'' cs = None"
    by (auto split: if_splits)
  have "\<not> prefix ''avc:'' (c # cs @ ''avc:'' @ rest)"
    using np by (cases cs; cases "tl cs"; cases "tl (tl cs)") auto
  then show ?case using Cons.IH[OF r] by simp
qed

section \<open>Lemmas on the matching steps and on a match of the denial pattern\<close>

lemma is_word_not_space: "is_word c \<Longrightarrow> \<not> isspace c"
  by (auto simp: is_word_def is_digit_def isspace_def)

lemma litD: "lit p s = Some r \<Longrightarrow> s = p @ r"
  by (auto simp: lit_def prefix_def split: if_splits)

lemma lit_append [simp]: "lit p (p @ r) = Some r"
  by (simp add: lit_def)

lemma opt_litD: "opt_lit p s = Some r \<Longrightarrow> s = r \<or> s = p @ r"
  by (auto simp: opt_lit_def prefix_def split: if_splits)

lemma many1D:
  "many1 P s = Some r \<Longrightarrow> \<exists>x xs. s = x # xs @ r \<and> P x \<and> list_all P xs"
proof -
  assume a: "many1 P s = Some r"
  then have ne: "takeWhile P s \<noteq> []" and r: "r = dropWhile P s"
    by (auto simp: many1_def split: if_splits)
  then obtain x xs where x: "takeWhile P s = x # xs" by (cases "takeWhile P s") auto
  have "\<forall>y\<in>set (takeWhile P s). P y" by (auto dest: set_takeWhileD)
  then have "P x" "list_all P xs" by (auto simp: x list_all_iff)
  moreover have "s = takeWhile P s @ dropWhile P s" by simp
  then have "s = x # xs @ r" unfolding x r by simp
  ultimately show ?thesis by blast
qed

lemma one_ofD: "one_of P s = Some r \<Longrightarrow> \<exists>c. s = c # r \<and> P c"
  by (auto simp: one_of_def split: list.splits if_splits)

lemma ops_groupD:
  "ops_group s = Some r \<Longrightarrow>
     \<exists>w word. s = w # word @ r \<and> isspace w \<and> word \<noteq> [] \<and> list_all is_word word"
  by (auto simp: ops_group_def bind_eq_Some_conv dest!: one_ofD many1D)

lemma word_not_brace: "word \<noteq> [] \<Longrightarrow> list_all is_word word \<Longrightarrow> word \<noteq> ''}''"
  by (auto simp: is_word_def is_digit_def)

lemma word_no_space: "list_all is_word word \<Longrightarrow> list_all (\<lambda>c. \<not> isspace c) word"
  by (auto simp: list_all_iff is_word_not_space)

lemma tokens_ops_groups:
  "ops_groups s = s1 # X \<Longrightarrow> isspace s1 \<Longrightarrow> word \<noteq> [] \<Longrightarrow> list_all is_word word \<Longrightarrow>
     \<exists>W. list_all (\<lambda>w. w \<noteq> ''}'') W \<and> tokens (word @ s) = word # W @ tokens X"
proof (induction s arbitrary: word rule: ops_groups.induct)
  case (1 s)
  show ?case
  proof (cases "ops_group s")
    case None
    then have "s = s1 # X" using "1.prems"(1) by (simp add: ops_groups.simps)
    then have "tokens (word @ s) = word # [] @ tokens X"
      using "1.prems" by (simp add: tokens_word_space word_no_space)
    then show ?thesis by (intro exI[of _ "[]"]) simp
  next
    case (Some r)
    then obtain w word' where s: "s = w # word' @ r" "isspace w" "word' \<noteq> []" "list_all is_word word'"
      by (blast dest: ops_groupD)
    have "ops_groups r = s1 # X" using "1.prems"(1) Some by (simp add: ops_groups.simps)
    then obtain W where W: "list_all (\<lambda>w. w \<noteq> ''}'') W" "tokens (word' @ r) = word' # W @ tokens X"
      using "1.IH"[OF Some _ "1.prems"(2) s(3,4)] by blast
    have "tokens (word @ s) = word # tokens (word' @ r)"
      unfolding s(1) using "1.prems"(3,4) s(2) by (simp add: tokens_word_space word_no_space)
    then have "tokens (word @ s) = word # (word' # W) @ tokens X" using W(2) by simp
    moreover have "list_all (\<lambda>w. w \<noteq> ''}'') (word' # W)"
      using W(1) word_not_brace[OF s(3,4)] by simp
    ultimately show ?thesis by blast
  qed
qed

lemma avc_match_tokens:
  assumes "kAvcMessageRegEX s = Some rest"
  shows "\<exists>W. W \<noteq> [] \<and> list_all (\<lambda>w. w \<noteq> ''}'') W \<and> prefix ''avc:'' s \<and>
           (\<forall>u. tokens (u @ s)
                  = tokens (u @ ''avc:'') @ [''denied'', ''{''] @ W @ [''}'', ''for''] @ tokens rest)"
proof -
  from assms obtain a1 a2 a3 a4 a5 a6 a8 a9 a10 a11 where
    m: "lit ''avc:'' s = Some a1" "many1 isspace a1 = Some a2" "lit ''denied'' a2 = Some a3"
       "many1 isspace a3 = Some a4" "lit ''{'' a4 = Some a5" "ops_group a5 = Some a6"
       "one_of isspace (ops_groups a6) = Some a8" "lit ''}'' a8 = Some a9"
       "one_of isspace a9 = Some a10" "lit ''for'' a10 = Some a11" "one_of isspace a11 = Some rest"
    unfolding kAvcMessageRegEX_def by (auto simp: bind_eq_Some_conv)
  obtain x1 xs1 where a1: "a1 = x1 # xs1 @ a2" "isspace x1" "list_all isspace xs1"
    using many1D[OF m(2)] by blast
  obtain x2 xs2 where a3: "a3 = x2 # xs2 @ a4" "isspace x2" "list_all isspace xs2"
    using many1D[OF m(4)] by blast
  obtain w word0 where a5: "a5 = w # word0 @ a6" "isspace w" "word0 \<noteq> []" "list_all is_word word0"
    using ops_groupD[OF m(6)] by blast
  obtain s1 where a7: "ops_groups a6 = s1 # a8" "isspace s1" using one_ofD[OF m(7)] by blast
  obtain s2 where a9: "a9 = s2 # a10" "isspace s2" using one_ofD[OF m(9)] by blast
  obtain s3 where a11: "a11 = s3 # rest" "isspace s3" using one_ofD[OF m(11)] by blast
  obtain W where W: "list_all (\<lambda>w. w \<noteq> ''}'') W" "tokens (word0 @ a6) = word0 # W @ tokens a8"
    using tokens_ops_groups[OF a7 a5(3,4)] by blast
  have t5: "tokens a10 = ''for'' # tokens rest"
    using tokens_word_space[of "''for''" s3 rest] a11 litD[OF m(10)] by (simp add: isspace_def)
  have t4: "tokens a8 = ''}'' # tokens a10"
    using tokens_word_space[of "''}''" s2 a10] a9 litD[OF m(8)] by (simp add: isspace_def)
  have t3: "tokens a4 = ''{'' # tokens (word0 @ a6)"
    using tokens_word_space[of "''{''" w "word0 @ a6"] a5 litD[OF m(5)] by (simp add: isspace_def)
  have t2: "tokens a2 = ''denied'' # tokens a4"
    using tokens_word_space[of "''denied''" x2 "xs2 @ a4"] a3 litD[OF m(3)] tokens_spaces[OF a3(3), of a4]
    by (simp add: isspace_def)
  have t1: "tokens (u @ s) = tokens (u @ ''avc:'') @ tokens a2" for u
  proof -
    have "u @ s = (u @ ''avc:'') @ x1 # (xs1 @ a2)" using litD[OF m(1)] a1 by simp
    then show ?thesis using tokens_split[OF a1(2), of "u @ ''avc:''" "xs1 @ a2"] tokens_spaces[OF a1(3), of a2]
      by simp
  qed
  have "tokens (u @ s) = tokens (u @ ''avc:'') @ [''denied'', ''{''] @ (word0 # W) @ [''}'', ''for''] @ tokens rest" for u
    unfolding t1 t2 t3 W(2) t4 t5 by simp
  moreover have "list_all (\<lambda>w. w \<noteq> ''}'') (word0 # W)"
    using W(1) word_not_brace[OF a5(3,4)] by simp
  moreover have "prefix ''avc:'' s" using litD[OF m(1)] by (metis prefixI)
  ultimately show ?thesis by blast
qed

lemma regex_searchD:
  "regex_search rx line = Some m \<Longrightarrow> \<exists>pre s. line = pre @ s \<and> rx s = Some m"
proof (induction line)
  case Nil
  then show ?case by simp
next
  case (Cons c cs)
  show ?case
  proof (cases "rx (c # cs)")
    case None
    then obtain pre s where "cs = pre @ s" "rx s = Some m" using Cons by auto
    then have "c # cs = (c # pre) @ s" by simp
    then show ?thesis using \<open>rx s = Some m\<close> by blast
  next
    case (Some m')
    then have "c # cs = [] @ (c # cs)" "rx (c # cs) = Some m" using Cons.prems by simp_all
    then show ?thesis by blast
  qed
qed

lemma many1_run:
  assumes "ws \<noteq> []" "list_all P ws" "r = [] \<or> \<not> P (hd r)"
  shows "many1 P (ws @ r) = Some r"
proof -
  have "takeWhile P (ws @ r) = ws" "dropWhile P (ws @ r) = r"
    using assms(2,3) by (cases r; simp add: list_all_iff)+
  then show ?thesis using assms(1) by (simp add: many1_def)
qed

lemma ops_group_text:
  assumes "is_group g" "r = [] \<or> \<not> is_word (hd r)"
  shows "ops_group (group_text g @ r) = Some r"
  using assms many1_run[of "snd g" is_word r]
  by (simp add: ops_group_def group_text_def is_group_def one_of_def)

lemma ops_groups_text:
  assumes "list_all is_group gs" "isspace a"
  shows "ops_groups (concat (map group_text gs) @ a # ''}'' @ r) = a # ''}'' @ r"
  using assms(1)
proof (induction gs)
  case Nil
  have "ops_group (a # ''}'' @ r) = None"
    using assms(2) by (simp add: ops_group_def one_of_def many1_def is_word_def is_digit_def)
  then show ?case by (simp add: ops_groups.simps)
next
  case (Cons g gs)
  let ?X = "concat (map group_text gs) @ a # ''}'' @ r"
  have "?X \<noteq> []" by simp
  have "isspace (hd ?X)"
  proof (cases gs)
    case Nil
    then show ?thesis using assms(2) by simp
  next
    case (Cons g' gs')
    then show ?thesis using Cons.prems by (simp add: group_text_def is_group_def)
  qed
  then have "\<not> is_word (hd ?X)" using is_word_not_space by blast
  then have "ops_group (group_text g @ ?X) = Some ?X"
    using Cons.prems by (intro ops_group_text) simp_all
  then have "ops_groups (group_text g @ ?X) = ops_groups ?X"
    by (subst ops_groups.simps) simp
  then show ?case using Cons by simp
qed

lemma kAvcMessageRegEX_complete:
  assumes "is_separator ws1" "is_separator ws2" "groups \<noteq> []" "list_all is_group groups"
      and "isspace a" "isspace b" "isspace c"
  shows "kAvcMessageRegEX (avc_match_text ws1 ws2 groups a b c @ rest) = Some rest"
proof -
  obtain g gs where g: "groups = g # gs" using assms(3) by (cases groups) auto
  let ?Y = "a # ''}'' @ b # ''for'' @ c # rest"
  let ?X = "concat (map group_text gs) @ ?Y"
  have w1: "many1 isspace (ws1 @ ''denied'' @ ws2 @ ''{'' @ group_text g @ ?X)
      = Some (''denied'' @ ws2 @ ''{'' @ group_text g @ ?X)"
    using assms(1) by (intro many1_run) (simp_all add: is_separator_def isspace_def)
  have w2: "many1 isspace (ws2 @ ''{'' @ group_text g @ ?X) = Some (''{'' @ group_text g @ ?X)"
    using assms(2) by (intro many1_run) (simp_all add: is_separator_def isspace_def)
  have "isspace (hd ?X)"
  proof (cases gs)
    case Nil
    then show ?thesis using assms(5) by simp
  next
    case (Cons g' gs')
    then show ?thesis using assms(4) g by (simp add: group_text_def is_group_def)
  qed
  then have "\<not> is_word (hd ?X)" using is_word_not_space by blast
  then have g1: "ops_group (group_text g @ ?X) = Some ?X"
    using assms(4) g by (intro ops_group_text) simp_all
  have gs: "ops_groups ?X = ?Y"
    using ops_groups_text[of gs a "b # ''for'' @ c # rest"] assms(4,5) g by simp
  have e: "avc_match_text ws1 ws2 groups a b c @ rest
      = ''avc:'' @ ws1 @ ''denied'' @ ws2 @ ''{'' @ group_text g @ ?X"
    by (simp add: avc_match_text_def g)
  have l1: "lit ''avc:'' (''avc:'' @ ws1 @ ''denied'' @ ws2 @ ''{'' @ group_text g @ ?X)
      = Some (ws1 @ ''denied'' @ ws2 @ ''{'' @ group_text g @ ?X)"
    by (rule lit_append)
  have l2: "lit ''denied'' (''denied'' @ ws2 @ ''{'' @ group_text g @ ?X) = Some (ws2 @ ''{'' @ group_text g @ ?X)"
    by (rule lit_append)
  have l3: "lit ''{'' (''{'' @ group_text g @ ?X) = Some (group_text g @ ?X)"
    by (rule lit_append)
  have tail: "(one_of isspace ?Y \<bind> lit ''}'' \<bind> one_of isspace \<bind> lit ''for'' \<bind> one_of isspace) = Some rest"
    using assms(5-7) by (simp add: one_of_def lit_def)
  show ?thesis
    unfolding e kAvcMessageRegEX_def l1 bind.bind_lunit w1 l2 w2 l3 g1 gs using tail by simp
qed

lemma regex_search_append: "rx s \<noteq> None \<Longrightarrow> regex_search rx (pre @ s) \<noteq> None"
proof (induction pre)
  case Nil
  then show ?case by (cases s) auto
next
  case (Cons c pre)
  then show ?case by (cases "rx (c # pre @ s)") auto
qed

section \<open>Lemmas on the constructor\<close>

lemma ops_loop_finds:
  "\<exists>c C ops'. ops_loop (x # A @ ''}'' # b # B) ops = Inr (''}'' # c # C, ops')"
proof (induction A arbitrary: x ops)
  case Nil
  show ?case by simp
next
  case (Cons a A)
  show ?case
  proof (cases "a = ''}''")
    case True
    then show ?thesis by (cases A) simp_all
  next
    case False
    then show ?thesis using Cons.IH[of a "insert x ops"] by simp
  qed
qed

lemma parse_body_total:
  "\<exists>r. parse_body self (t2 # x # A @ ''}'' # b # B) = Inr r"
proof -
  obtain c C ops' where "ops_loop (x # A @ ''}'' # b # B) (operation self) = Inr (''}'' # c # C, ops')"
    using ops_loop_finds by blast
  then show ?thesis by (simp add: parse_body_def)
qed

lemma parse_tokens_total:
  "\<exists>r. parse_tokens g0 p0 (t0 # t1 # t2 # x # A @ ''}'' # b # B) = Inr r"
  using parse_body_total[of _ t2 x A b B] by (simp add: parse_tokens_def)

lemma at_least_four:
  assumes "T \<noteq> []" "W \<noteq> []"
  shows "\<exists>t0 t1 t2 x A. T @ [d, e] @ W = t0 # t1 # t2 # x # A"
proof -
  obtain t0 T' where T: "T = t0 # T'" using assms(1) by (cases T) auto
  obtain w0 W' where W: "W = w0 # W'" using assms(2) by (cases W) auto
  show ?thesis
  proof (cases T')
    case Nil
    then show ?thesis by (simp add: T W)
  next
    case (Cons t1 T'')
    then show ?thesis
      by (cases T''; cases "tl T''") (auto simp: T W)
  qed
qed

lemma ctor_total_on_match:
  assumes "regex_search kAvcMessageRegEX line = Some rest"
  shows "\<exists>r. AvcContext_ctor g0 p0 line = Inr r"
proof -
  obtain pre s where line: "line = pre @ s" and m: "kAvcMessageRegEX s = Some rest"
    using regex_searchD[OF assms] by blast
  obtain W where W: "W \<noteq> []" "prefix ''avc:'' s"
      "\<And>u. tokens (u @ s) = tokens (u @ ''avc:'') @ [''denied'', ''{''] @ W @ [''}'', ''for''] @ tokens rest"
    using avc_match_tokens[OF m] by blast
  have "prefix ''avc:'' (drop (length pre) line)" using W(2) by (simp add: line)
  then obtain pos where pos: "pos \<le> length pre" "find_sub ''avc:'' line = Some pos"
    using find_sub_first[of "''avc:''" "length pre" line] by (auto simp: line)
  define u where "u = drop pos pre"
  have d: "drop pos line = u @ s" using pos(1) by (simp add: line u_def)
  have "\<not> list_all isspace (u @ ''avc:'')" by (simp add: isspace_def)
  then have T: "tokens (u @ ''avc:'') \<noteq> []" by (rule tokens_nonempty)
  obtain t0 t1 t2 x A where
    "tokens (u @ ''avc:'') @ [''denied'', ''{''] @ W = t0 # t1 # t2 # x # A"
    using at_least_four[OF T W(1)] by blast
  then have "tokens (drop pos line) = t0 # t1 # t2 # x # A @ ''}'' # ''for'' # tokens rest"
    unfolding d W(3) by simp
  then show ?thesis
    using parse_tokens_total[of g0 p0 t0 t1 t2 x A "''for''" "tokens rest"] pos(2)
    by (simp add: AvcContext_ctor_def)
qed

lemma ops_loop_eq:
  "ops_loop (x # A) ops =
     (case dropWhile (\<lambda>t. t \<noteq> ''}'') A of
        [] \<Rightarrow> Inl PastTheEnd
      | b # r \<Rightarrow> Inr (b # r, insert x ops \<union> set (takeWhile (\<lambda>t. t \<noteq> ''}'') A)))"
proof (induction A arbitrary: x ops)
  case Nil
  show ?case by simp
next
  case (Cons a A)
  show ?case
  proof (cases "a = ''}''")
    case True
    then show ?thesis by simp
  next
    case False
    define D where "D = dropWhile (\<lambda>t. t \<noteq> ''}'') A"
    have "ops_loop (x # a # A) ops = ops_loop (a # A) (insert x ops)"
      using False by simp
    also have "\<dots> = (case D of [] \<Rightarrow> Inl PastTheEnd
        | b # r \<Rightarrow> Inr (b # r, insert a (insert x ops) \<union> set (takeWhile (\<lambda>t. t \<noteq> ''}'') A)))"
      unfolding D_def by (rule Cons)
    also have "\<dots> = (case D of [] \<Rightarrow> Inl PastTheEnd
        | b # r \<Rightarrow> Inr (b # r, insert x ops \<union> set (takeWhile (\<lambda>t. t \<noteq> ''}'') (a # A))))"
      using False by (cases D) auto
    finally show ?thesis using False by (simp add: D_def)
  qed
qed

lemma parse_body_eq:
  "parse_body self (t2 # x # A) =
     (case dropWhile (\<lambda>t. t \<noteq> ''}'') A of
        [] \<Rightarrow> Inl PastTheEnd
      | b # r \<Rightarrow>
          (case r of
             [] \<Rightarrow> Inl PastTheEnd
           | c # it6 \<Rightarrow>
               if it6 = []
               then Inr (self\<lparr>operation := insert x (operation self \<union> set (takeWhile (\<lambda>t. t \<noteq> ''}'') A))\<rparr>)
               else Inr (parse_attributes
                      (self\<lparr>operation := insert x (operation self \<union> set (takeWhile (\<lambda>t. t \<noteq> ''}'') A))\<rparr>)
                      it6)))"
proof -
  define D where "D = dropWhile (\<lambda>t. t \<noteq> ''}'') A"
  show ?thesis
    unfolding parse_body_def list.case ops_loop_eq D_def[symmetric]
    by (cases D) simp_all
qed

lemma parse_body_total_iff:
  "(\<exists>r. parse_body self it2 = Inr r) \<longleftrightarrow> (case it2 of _ # _ # A \<Rightarrow> closes_after A | _ \<Rightarrow> False)"
proof (cases it2)
  case Nil
  then show ?thesis by (simp add: parse_body_def)
next
  case (Cons t2 it3)
  note it2 = this
  show ?thesis
  proof (cases it3)
    case Nil
    then show ?thesis using it2 by (simp add: parse_body_def)
  next
    case (Cons x A)
    define D where "D = dropWhile (\<lambda>t. t \<noteq> ''}'') A"
    have c: "closes_after A \<longleftrightarrow> (case D of [] \<Rightarrow> False | _ # r \<Rightarrow> r \<noteq> [])"
      unfolding D_def closes_after_def ..
    have "(\<exists>r. parse_body self (t2 # x # A) = Inr r) \<longleftrightarrow> closes_after A"
      unfolding parse_body_eq c D_def[symmetric]
      by (cases D; cases "tl D") auto
    then show ?thesis by (simp add: it2 Cons)
  qed
qed

lemma parse_tokens_total_iff:
  "(\<exists>r. parse_tokens g0 p0 lines = Inr r) \<longleftrightarrow>
     (case lines of
        _ # status # rest \<Rightarrow>
          (status \<noteq> ''granted'' \<and> status \<noteq> ''denied'')
          \<or> (case rest of _ # _ # A \<Rightarrow> closes_after A | _ \<Rightarrow> False)
      | _ \<Rightarrow> False)"
proof (cases lines)
  case Nil
  then show ?thesis by (simp add: parse_tokens_def)
next
  case (Cons t0 it1)
  show ?thesis
  proof (cases it1)
    case Nil
    then show ?thesis using Cons by (simp add: parse_tokens_def)
  next
    case (Cons status it2)
    then show ?thesis using \<open>lines = t0 # it1\<close> parse_body_total_iff[of _ it2]
      by (simp add: parse_tokens_def)
  qed
qed

lemma ctor_marker_tokens:
  "AvcContext_ctor g0 p0 line =
     (case find_sub ''avc:'' line of
        None \<Rightarrow> Inl OutOfRange
      | Some pos \<Rightarrow> parse_tokens g0 p0 (marker_tokens line))"
  by (simp add: AvcContext_ctor_def marker_tokens_def split: option.splits)

lemma ctor_total_iff:
  "(\<exists>r. AvcContext_ctor g0 p0 line = Inr r) \<longleftrightarrow> parseable line"
proof (cases "find_sub ''avc:'' line")
  case None
  then show ?thesis by (simp add: AvcContext_ctor_def parseable_def marker_tokens_def)
next
  case (Some pos)
  then show ?thesis
    using parse_tokens_total_iff[of g0 p0 "marker_tokens line"]
    by (simp add: ctor_marker_tokens parseable_def)
qed

lemma findOrDie_eq: "findOrDie m key = (m key, m(key := None))"
  by (cases "m key") (simp_all add: findOrDie_def fun_upd_idem)

lemma parse_attributes_live:
  assumes "\<not> stale (parse_attributes self it)" "stale self"
  shows "\<exists>sc tc cl pv.
           fold add_attribute it (misc_attributes self) ''scontext'' = Some sc
         \<and> fold add_attribute it (misc_attributes self) ''tcontext'' = Some tc
         \<and> fold add_attribute it (misc_attributes self) ''tclass'' = Some cl
         \<and> fold add_attribute it (misc_attributes self) ''permissive'' = Some pv
         \<and> (extract_int pv = Some 0 \<or> extract_int pv = Some 1)
         \<and> parse_attributes self it =
             self\<lparr>scontext := SEContext_ctor sc, tcontext := SEContext_ctor tc, tclass := cl,
                  misc_attributes := fold add_attribute it (misc_attributes self) |` (- required_keys),
                  permissive := (extract_int pv = Some 1), stale := False\<rparr>"
proof -
  define m where "m = fold add_attribute it (misc_attributes self)"
  have r: "m(''scontext'' := None, ''tcontext'' := None, ''tclass'' := None, ''permissive'' := None)
      = m |` (- required_keys)"
    by (auto simp: fun_eq_iff restrict_map_def required_keys_def)
  note pa = parse_attributes_def findOrDie_eq Let_def m_def[symmetric]
  obtain sc where sc: "m ''scontext'' = Some sc"
    using assms by (cases "m ''scontext''") (simp_all add: pa)
  obtain tc where tc: "m ''tcontext'' = Some tc"
    using assms sc by (cases "m ''tcontext''") (simp_all add: pa)
  obtain cl where cl: "m ''tclass'' = Some cl"
    using assms sc tc by (cases "m ''tclass''") (simp_all add: pa)
  obtain pv where pv: "m ''permissive'' = Some pv"
    using assms sc tc cl by (cases "m ''permissive''") (simp_all add: pa)
  obtain x where x: "extract_int pv = Some x"
    using assms sc tc cl pv by (cases "extract_int pv") (simp_all add: pa)
  have x01: "x = 0 \<or> x = 1"
    using assms sc tc cl pv x by (cases "x = 0 \<or> x = 1") (simp_all add: pa)
  have "parse_attributes self it =
          self\<lparr>scontext := SEContext_ctor sc, tcontext := SEContext_ctor tc, tclass := cl,
               misc_attributes := m |` (- required_keys),
               permissive := (extract_int pv = Some 1), stale := False\<rparr>"
    using sc tc cl pv x x01 by (simp add: pa r[symmetric])
  then show ?thesis
    using sc tc cl pv x x01 unfolding m_def by blast
qed

lemma parse_body_live:
  assumes "parse_body self it2 = Inr r" "\<not> stale r" "stale self"
  shows "\<exists>it ops. it \<noteq> [] \<and> suffix it it2 \<and> r = parse_attributes (self\<lparr>operation := ops\<rparr>) it"
proof -
  have "\<exists>r. parse_body self it2 = Inr r" using assms(1) by blast
  then obtain t2 x A where it2: "it2 = t2 # x # A"
    unfolding parse_body_total_iff by (auto split: list.splits)
  define D where "D = dropWhile (\<lambda>t. t \<noteq> ''}'') A"
  define ops where "ops = insert x (operation self \<union> set (takeWhile (\<lambda>t. t \<noteq> ''}'') A))"
  have e: "parse_body self it2 =
     (case D of [] \<Rightarrow> Inl PastTheEnd
      | b # r \<Rightarrow> (case r of [] \<Rightarrow> Inl PastTheEnd
          | c # it6 \<Rightarrow> if it6 = [] then Inr (self\<lparr>operation := ops\<rparr>)
                        else Inr (parse_attributes (self\<lparr>operation := ops\<rparr>) it6)))"
    unfolding it2 parse_body_eq D_def ops_def ..
  obtain b c it6 where D: "D = b # c # it6"
    using assms(1) unfolding e by (cases D; cases "tl D") auto
  have ne: "it6 \<noteq> []"
  proof
    assume "it6 = []"
    then have "r = self\<lparr>operation := ops\<rparr>" using assms(1) unfolding e D by simp
    then show False using assms(2,3) by simp
  qed
  then have r: "r = parse_attributes (self\<lparr>operation := ops\<rparr>) it6"
    using assms(1) unfolding e D by simp
  have "A = takeWhile (\<lambda>t. t \<noteq> ''}'') A @ D" unfolding D_def by simp
  then have "it2 = (t2 # x # takeWhile (\<lambda>t. t \<noteq> ''}'') A @ [b, c]) @ it6"
    unfolding it2 D by simp
  then have "suffix it6 it2" by (rule suffixI)
  with ne r show ?thesis by blast
qed

lemma ctor_live:
  assumes "AvcContext_ctor g0 p0 line = Inr r" "\<not> stale r"
  shows "\<exists>t0 status rest it sc tc cl pv.
           marker_tokens line = t0 # status # rest
         \<and> (status = ''granted'' \<or> status = ''denied'')
         \<and> it \<noteq> [] \<and> suffix it rest
         \<and> fold add_attribute it Map.empty ''scontext'' = Some sc
         \<and> fold add_attribute it Map.empty ''tcontext'' = Some tc
         \<and> fold add_attribute it Map.empty ''tclass'' = Some cl
         \<and> fold add_attribute it Map.empty ''permissive'' = Some pv
         \<and> (extract_int pv = Some 0 \<or> extract_int pv = Some 1)
         \<and> granted r = (status = ''granted'')
         \<and> scontext r = SEContext_ctor sc \<and> tcontext r = SEContext_ctor tc \<and> tclass r = cl
         \<and> permissive r = (extract_int pv = Some 1)
         \<and> misc_attributes r = fold add_attribute it Map.empty |` (- required_keys)"
proof -
  obtain pos where pos: "find_sub ''avc:'' line = Some pos"
    using assms(1) by (cases "find_sub ''avc:'' line") (simp_all add: AvcContext_ctor_def)
  then have pt: "parse_tokens g0 p0 (marker_tokens line) = Inr r"
    using assms(1) by (simp add: ctor_marker_tokens)
  then have "\<exists>r. parse_tokens g0 p0 (marker_tokens line) = Inr r" by blast
  then obtain t0 status rest where mt: "marker_tokens line = t0 # status # rest"
    unfolding parse_tokens_total_iff by (auto split: list.splits)
  have st: "status = ''granted'' \<or> status = ''denied''"
  proof (rule ccontr)
    assume "\<not> ?thesis"
    then have "r = AvcContext_init g0 p0" using pt by (simp add: mt parse_tokens_def)
    then show False using assms(2) by (simp add: AvcContext_init_def)
  qed
  define self where "self = (AvcContext_init g0 p0)\<lparr>granted := (status = ''granted'')\<rparr>"
  have self: "stale self" "misc_attributes self = Map.empty"
    by (simp_all add: self_def AvcContext_init_def)
  have pb: "parse_body self rest = Inr r"
    using pt st by (auto simp: mt parse_tokens_def self_def)
  obtain it ops where it: "it \<noteq> []" "suffix it rest"
      "r = parse_attributes (self\<lparr>operation := ops\<rparr>) it"
    using parse_body_live[OF pb assms(2) self(1)] by blast
  define self' where "self' = self\<lparr>operation := ops\<rparr>"
  have self': "stale self'" "misc_attributes self' = Map.empty" "granted self' = (status = ''granted'')"
    by (simp_all add: self'_def self_def AvcContext_init_def)
  have "\<not> stale (parse_attributes self' it)" using assms(2) it(3) by (simp add: self'_def)
  from parse_attributes_live[OF this self'(1)] obtain sc tc cl pv where
    a: "fold add_attribute it Map.empty ''scontext'' = Some sc"
       "fold add_attribute it Map.empty ''tcontext'' = Some tc"
       "fold add_attribute it Map.empty ''tclass'' = Some cl"
       "fold add_attribute it Map.empty ''permissive'' = Some pv"
       "extract_int pv = Some 0 \<or> extract_int pv = Some 1"
       "parse_attributes self' it =
             self'\<lparr>scontext := SEContext_ctor sc, tcontext := SEContext_ctor tc, tclass := cl,
                  misc_attributes := fold add_attribute it Map.empty |` (- required_keys),
                  permissive := (extract_int pv = Some 1), stale := False\<rparr>"
    unfolding self'(2) by blast
  have r: "r = self'\<lparr>scontext := SEContext_ctor sc, tcontext := SEContext_ctor tc, tclass := cl,
                  misc_attributes := fold add_attribute it Map.empty |` (- required_keys),
                  permissive := (extract_int pv = Some 1), stale := False\<rparr>"
    using it(3) a(6) by (simp add: self'_def)
  have f: "granted r = (status = ''granted'')" "scontext r = SEContext_ctor sc"
      "tcontext r = SEContext_ctor tc" "tclass r = cl"
      "permissive r = (extract_int pv = Some 1)"
      "misc_attributes r = fold add_attribute it Map.empty |` (- required_keys)"
    unfolding r using self'(3) by simp_all
  show ?thesis
    using mt st it(1,2) a(1-5) f by blast
qed

lemma filtered_parseable:
  "regex_search kAvcMessageRegEX line \<noteq> None \<Longrightarrow> parseable line"
proof -
  assume "regex_search kAvcMessageRegEX line \<noteq> None"
  then obtain rest where "regex_search kAvcMessageRegEX line = Some rest" by auto
  then have "\<exists>r. AvcContext_ctor False False line = Inr r" by (rule ctor_total_on_match)
  then show ?thesis by (simp only: ctor_total_iff)
qed

lemmas parseable_defs = parseable_def marker_tokens_def closes_after_def tokens_Cons isspace_def

lemma tokens_interleave:
  assumes "list_all is_token toks" "list_all is_separator seps"
      and "length seps = length toks - 1" "list_all isspace trail"
  shows "tokens (interleave toks seps @ trail) = toks"
  using assms
proof (induction toks seps rule: interleave.induct)
  case (1 seps)
  then show ?case using tokens_spaces[of trail "[]"] by simp
next
  case (2 t seps)
  then have t: "t \<noteq> []" "list_all (\<lambda>c. \<not> isspace c) t" by (simp_all add: is_token_def)
  show ?case
  proof (cases trail)
    case Nil
    then show ?thesis using tokens_word_end[OF t] by simp
  next
    case (Cons w tr)
    then have "isspace w" "list_all isspace tr" using "2.prems"(4) by simp_all
    then show ?thesis
      using tokens_word_space[OF t, of w tr] tokens_spaces[of tr "[]"] Cons by simp
  qed
next
  case (3 t t' ts seps)
  then have t: "t \<noteq> []" "list_all (\<lambda>c. \<not> isspace c) t" by (simp_all add: is_token_def)
  obtain sep seps' where seps: "seps = sep # seps'" using "3.prems"(3) by (cases seps) auto
  then obtain w sep' where sep: "sep = w # sep'" "isspace w" "list_all isspace sep'"
    using "3.prems"(2) by (cases sep) (auto simp: is_separator_def)
  have IH: "tokens (interleave (t' # ts) seps' @ trail) = t' # ts"
    using "3.IH" "3.prems" seps by simp
  have "tokens (interleave (t # t' # ts) seps @ trail)
      = tokens (t @ w # (sep' @ interleave (t' # ts) seps' @ trail))"
    by (simp add: seps sep)
  also have "\<dots> = t # tokens (sep' @ interleave (t' # ts) seps' @ trail)"
    using t sep(2) by (rule tokens_word_space)
  also have "\<dots> = t # t' # ts" using tokens_spaces[OF sep(3)] IH by simp
  finally show ?case .
qed

lemma ops_loop_clean:
  "''}'' \<notin> set os \<Longrightarrow>
     ops_loop (o1 # os @ ''}'' # R) acc = Inr (''}'' # R, insert o1 acc \<union> set os)"
  by (induction os arbitrary: o1 acc) auto

lemma add_attribute_token:
  assumes "CHR ''='' \<notin> set (fst kv)"
  shows "add_attribute (attr_token kv) m = emplace (fst kv) (TrimDoubleQuote (snd kv)) m"
proof -
  have "takeWhile (\<lambda>x. x \<noteq> CHR ''='') (fst kv @ CHR ''='' # snd kv) = fst kv"
    using assms by (subst takeWhile_append2) auto
  then show ?thesis by (simp add: add_attribute_def find_char_def attr_token_def)
qed

lemma fold_add_attribute:
  "list_all (\<lambda>kv. CHR ''='' \<notin> set (fst kv)) kvs \<Longrightarrow>
     fold add_attribute (map attr_token kvs) m = collected kvs ++ m"
proof (induction kvs arbitrary: m)
  case Nil
  show ?case by (simp add: collected_def)
next
  case (Cons kv kvs)
  have "fold add_attribute (map attr_token (kv # kvs)) m
      = fold add_attribute (map attr_token kvs) (add_attribute (attr_token kv) m)"
    by simp
  also have "\<dots> = collected kvs ++ emplace (fst kv) (TrimDoubleQuote (snd kv)) m"
    using Cons by (simp add: add_attribute_token)
  also have "\<dots> = collected (kv # kvs) ++ m"
    by (auto simp: fun_eq_iff map_add_def emplace_def collected_def split: option.splits)
  finally show ?case .
qed

lemma parse_attributes_required:
  assumes "fold add_attribute it (misc_attributes self) = attrs"
      and "attrs ''scontext'' = Some sc" "attrs ''tcontext'' = Some tc"
      and "attrs ''tclass'' = Some cl" "attrs ''permissive'' = Some pv"
      and "pv = ''0'' \<or> pv = ''1''"
  shows "parse_attributes self it =
           self\<lparr>scontext := SEContext_ctor sc, tcontext := SEContext_ctor tc, tclass := cl,
                misc_attributes := attrs |` (- required_keys),
                permissive := (pv = ''1''), stale := False\<rparr>"
proof -
  have r: "attrs(''scontext'' := None, ''tcontext'' := None, ''tclass'' := None, ''permissive'' := None)
      = attrs |` (- required_keys)"
    by (auto simp: fun_eq_iff restrict_map_def required_keys_def)
  have e: "extract_int pv = Some (if pv = ''1'' then 1 else 0)"
    using assms(6) by (auto simp: extract_int_def isspace_def is_digit_def decimal_def digit_val_def)
  show ?thesis
    using assms(1-5) e by (auto simp: parse_attributes_def findOrDie_def r)
qed

lemma status_token: "status = ''granted'' \<or> status = ''denied'' \<Longrightarrow> is_token status"
  by (auto simp: is_token_def isspace_def)

lemma attr_tokens:
  "list_all (\<lambda>kv. CHR ''='' \<notin> set (fst kv) \<and> list_all (\<lambda>c. \<not> isspace c) (fst kv @ snd kv)) kvs
   \<Longrightarrow> list_all is_token (map attr_token kvs)"
  by (induction kvs) (auto simp: is_token_def attr_token_def isspace_def)

lemma fixed_tokens: "is_token ''avc:''" "is_token ''{''" "is_token ''}''" "is_token ''for''"
  by (simp_all add: is_token_def isspace_def)

lemma denial_tokens_ok:
  assumes "is_token status" "list_all is_token ops" "list_all is_token (map attr_token kvs)"
  shows "list_all is_token (denial_tokens status ops kvs)"
  using assms fixed_tokens unfolding denial_tokens_def by simp

lemma body_marker:
  "\<exists>rest. interleave (denial_tokens status ops kvs) seps @ trail = ''avc:'' @ rest"
  unfolding denial_tokens_def by simp

lemma parse_tokens_valid:
  assumes status: "status = ''granted'' \<or> status = ''denied''"
    and ops: "ops \<noteq> []" "list_all (\<lambda>op. op \<noteq> ''}'') ops"
    and kvs: "list_all (\<lambda>kv. CHR ''='' \<notin> set (fst kv)) kvs"
    and req: "collected kvs ''scontext'' = Some sc" "collected kvs ''tcontext'' = Some tc"
             "collected kvs ''tclass'' = Some cl" "collected kvs ''permissive'' = Some pv"
             "pv = ''0'' \<or> pv = ''1''"
  shows "parse_tokens g0 p0 (denial_tokens status ops kvs)
     = Inr \<lparr>granted = (status = ''granted''), operation = set ops,
            scontext = SEContext_ctor sc, tcontext = SEContext_ctor tc, tclass = cl,
            misc_attributes = collected kvs |` (- required_keys),
            permissive = (pv = ''1''), stale = False\<rparr>"
proof -
  obtain o1 os where o: "ops = o1 # os" using ops(1) by (cases ops) auto
  have nb: "''}'' \<notin> set os" using ops(2) by (auto simp: o list_all_iff)
  have loop: "ops_loop (ops @ ''}'' # ''for'' # map attr_token kvs) {}
      = Inr (''}'' # ''for'' # map attr_token kvs, set ops)"
    using ops_loop_clean[OF nb, of o1 "''for'' # map attr_token kvs" "{}"] by (simp add: o)
  have ne: "map attr_token kvs \<noteq> []" using req(1) by (auto simp: collected_def)
  define self where "self = (AvcContext_init g0 p0)\<lparr>granted := (status = ''granted''), operation := set ops\<rparr>"
  have m: "misc_attributes self = Map.empty" by (simp add: self_def AvcContext_init_def)
  have attrs: "fold add_attribute (map attr_token kvs) (misc_attributes self) = collected kvs"
    using fold_add_attribute[OF kvs, of Map.empty] by (simp add: m)
  have pa: "parse_attributes self (map attr_token kvs)
      = self\<lparr>scontext := SEContext_ctor sc, tcontext := SEContext_ctor tc, tclass := cl,
              misc_attributes := collected kvs |` (- required_keys),
              permissive := (pv = ''1''), stale := False\<rparr>"
    using attrs req by (rule parse_attributes_required)
  have body: "parse_body ((AvcContext_init g0 p0)\<lparr>granted := (status = ''granted'')\<rparr>)
                (''{'' # ops @ ''}'' # ''for'' # map attr_token kvs)
      = Inr (parse_attributes self (map attr_token kvs))"
    using loop ne by (simp add: parse_body_def self_def AvcContext_init_def)
  have "parse_tokens g0 p0 (denial_tokens status ops kvs)
      = parse_body ((AvcContext_init g0 p0)\<lparr>granted := (status = ''granted'')\<rparr>)
                (''{'' # ops @ ''}'' # ''for'' # map attr_token kvs)"
    using status by (auto simp: parse_tokens_def denial_tokens_def)
  then show ?thesis
    unfolding body pa by (simp add: self_def AvcContext_init_def)
qed

lemma ctor_valid_line:
  assumes marker: "find_sub ''avc:'' pre = None"
    and status: "status = ''granted'' \<or> status = ''denied''"
    and ops: "ops \<noteq> []" "list_all (\<lambda>op. is_token op \<and> op \<noteq> ''}'') ops"
    and kvs: "list_all (\<lambda>kv. CHR ''='' \<notin> set (fst kv) \<and> list_all (\<lambda>c. \<not> isspace c) (fst kv @ snd kv)) kvs"
    and seps: "list_all is_separator seps" "length seps = length (denial_tokens status ops kvs) - 1"
    and trail: "list_all isspace trail"
    and req: "collected kvs ''scontext'' = Some sc" "collected kvs ''tcontext'' = Some tc"
             "collected kvs ''tclass'' = Some cl" "collected kvs ''permissive'' = Some pv"
             "pv = ''0'' \<or> pv = ''1''"
  shows "AvcContext_ctor g0 p0 (pre @ interleave (denial_tokens status ops kvs) seps @ trail)
     = Inr \<lparr>granted = (status = ''granted''), operation = set ops,
            scontext = SEContext_ctor sc, tcontext = SEContext_ctor tc, tclass = cl,
            misc_attributes = collected kvs |` (- required_keys),
            permissive = (pv = ''1''), stale = False\<rparr>"
proof -
  let ?toks = "denial_tokens status ops kvs"
  let ?body = "interleave ?toks seps @ trail"
  have o1: "list_all is_token ops" and o2: "list_all (\<lambda>op. op \<noteq> ''}'') ops"
    using ops(2) by (simp_all add: list_all_iff)
  have k1: "list_all (\<lambda>kv. CHR ''='' \<notin> set (fst kv)) kvs"
    using kvs by (simp add: list_all_iff)
  have all: "list_all is_token ?toks"
    using status_token[OF status] o1 attr_tokens[OF kvs] by (rule denial_tokens_ok)
  have toks: "tokens ?body = ?toks"
    using all seps trail by (rule tokens_interleave)
  obtain rest where body: "?body = ''avc:'' @ rest"
    using body_marker by blast
  have "find_sub ''avc:'' (pre @ ''avc:'' @ rest) = Some (length pre)"
    using marker by (rule find_sub_marker)
  then have pos: "find_sub ''avc:'' (pre @ ?body) = Some (length pre)"
    unfolding body .
  have "AvcContext_ctor g0 p0 (pre @ ?body) = parse_tokens g0 p0 (tokens ?body)"
    unfolding AvcContext_ctor_def pos by simp
  then show ?thesis
    unfolding toks using parse_tokens_valid[OF status ops(1) o2 k1 req] by simp
qed

section \<open>Lemmas on labels and quotes\<close>

lemma label_tail_iff:
  "label_tail head name s \<longleftrightarrow>
     (\<exists>extra. s = head @ name @ '':s0'' @ extra \<and> list_all (\<lambda>c. \<not> is_line_terminator c) extra)"
proof -
  define p where "p = head @ name @ '':s0''"
  have "(case lit p s of None \<Rightarrow> False | Some extra \<Rightarrow> list_all (\<lambda>c. \<not> is_line_terminator c) extra)
      \<longleftrightarrow> (\<exists>extra. s = p @ extra \<and> list_all (\<lambda>c. \<not> is_line_terminator c) extra)"
    by (auto split: option.splits dest: litD)
  then show ?thesis unfolding label_tail_def p_def by simp
qed

lemma kSEContextRegex_sound:
  assumes "kSEContextRegex s = Some name"
  shows "canonical_label s name"
proof -
  from assms obtain s1 s2 s3 s5 where
    m: "lit ''u:'' s = Some s1" "opt_lit ''object_'' s1 = Some s2" "lit ''r:'' s2 = Some s3"
       "many1 is_name_char s3 = Some (dropWhile is_name_char s3)"
       "lit '':s0'' (dropWhile is_name_char s3) = Some s5"
       "list_all (\<lambda>c. \<not> is_line_terminator c) s5" "name = takeWhile is_name_char s3"
    unfolding kSEContextRegex_def
    by (auto simp: bind_eq_Some_conv many1_def split: option.splits if_splits)
  have ne: "name \<noteq> []" using m(4,7) by (auto simp: many1_def split: if_splits)
  have nc: "list_all is_name_char name"
    unfolding m(7) by (auto simp: list_all_iff dest: set_takeWhileD)
  have "s3 = takeWhile is_name_char s3 @ dropWhile is_name_char s3" by simp
  then have s3: "s3 = name @ '':s0'' @ s5" using litD[OF m(5)] m(7) by simp
  have "s = ''u:r:'' @ name @ '':s0'' @ s5 \<or> s = ''u:object_r:'' @ name @ '':s0'' @ s5"
    using litD[OF m(1)] opt_litD[OF m(2)] litD[OF m(3)] s3 by auto
  then have "label_tail ''u:r:'' name s \<or> label_tail ''u:object_r:'' name s"
    unfolding label_tail_iff using m(6) by blast
  then show ?thesis
    using ne nc unfolding canonical_label_def by simp
qed

lemma kSEContextRegex_complete:
  assumes "canonical_label s name"
  shows "kSEContextRegex s = Some name"
proof -
  from assms have n: "name \<noteq> []" "list_all is_name_char name"
    by (simp_all add: canonical_label_def)
  from assms obtain head extra where
    h: "head = ''u:r:'' \<or> head = ''u:object_r:''" "s = head @ name @ '':s0'' @ extra"
       "list_all (\<lambda>c. \<not> is_line_terminator c) extra"
    unfolding canonical_label_def label_tail_iff by blast
  have nc: "\<not> is_name_char CHR '':''"
    by (simp add: is_name_char_def is_word_def is_digit_def)
  have tw: "takeWhile is_name_char (name @ '':s0'' @ extra) = name"
    using n(2) nc by (subst takeWhile_append2) (auto simp: list_all_iff)
  have dw: "dropWhile is_name_char (name @ '':s0'' @ extra) = '':s0'' @ extra"
    using n(2) nc by (subst dropWhile_append2) (auto simp: list_all_iff)
  have "Option.bind (lit ''u:'' s) (\<lambda>s. Option.bind (opt_lit ''object_'' s) (lit ''r:''))
      = Some (name @ '':s0'' @ extra)"
    using h(1) unfolding h(2) by (auto simp: lit_def opt_lit_def)
  moreover have "Option.bind (many1 is_name_char (name @ '':s0'' @ extra)) (lit '':s0'') = Some extra"
    unfolding many1_def tw dw using n(1) lit_append[of "'':s0''" extra] by simp
  ultimately show ?thesis
    using h(3) tw unfolding kSEContextRegex_def by simp
qed

lemma SEContext_ctor_canonical: "canonical_label s name \<Longrightarrow> SEContext_ctor s = MkSEContext name"
  by (simp add: SEContext_ctor_def kSEContextRegex_complete)

lemma SEContext_ctor_verbatim: "\<forall>name. \<not> canonical_label s name \<Longrightarrow> SEContext_ctor s = MkSEContext s"
  by (cases "kSEContextRegex s") (auto simp: SEContext_ctor_def dest: kSEContextRegex_sound)

lemma TrimDoubleQuote_quoted:
  "w \<noteq> [] \<Longrightarrow> TrimDoubleQuote (CHR 0x22 # w @ [CHR 0x22]) = w"
  by (cases w) (simp_all add: TrimDoubleQuote_def)

lemma TrimDoubleQuote_other:
  assumes "\<forall>w. w \<noteq> [] \<longrightarrow> v \<noteq> CHR 0x22 # w @ [CHR 0x22]"
  shows "TrimDoubleQuote v = v"
proof (rule ccontr)
  assume "TrimDoubleQuote v \<noteq> v"
  then have l: "length v > 2" and h: "hd v = CHR 0x22" and t: "last v = CHR 0x22"
    by (auto simp: TrimDoubleQuote_def split: if_splits)
  from l have "v \<noteq> []" "tl v \<noteq> []" by (cases v; auto)+
  then obtain x y where v: "v = x # y" "y \<noteq> []" by (cases v) auto
  then have "y = butlast y @ [last y]" by simp
  moreover have "x = CHR 0x22" "last y = CHR 0x22" using v h t by auto
  ultimately have "v = CHR 0x22 # butlast y @ [CHR 0x22]" using v(1) by metis
  moreover have "butlast y \<noteq> []" using l v by (cases y rule: rev_cases) auto
  ultimately show False using assms by blast
qed

section \<open>Lemmas on the property filter\<close>

lemma kPropertyAccessRegEX_size: "kPropertyAccessRegEX s = Some m \<Longrightarrow> length m = 4"
  by (auto simp: kPropertyAccessRegEX_def split: option.splits prod.splits)

lemma regex_search_size: "regex_search kPropertyAccessRegEX line = Some m \<Longrightarrow> length m = 4"
  by (blast dest: regex_searchD kPropertyAccessRegEX_size)

lemma libc_filter_never_matches: "libcPropFilterContext_filter propsDenied line = (False, propsDenied)"
  by (auto simp: libcPropFilterContext_filter_def split: option.splits dest: regex_search_size)

section \<open>Lemmas on the merge sweep\<close>

lemma mergable_key: "mergable a b \<longleftrightarrow> merge_key a = merge_key b"
  by (auto simp: mergable_def merge_key_def)

lemma evolves_refl: "evolves v v"
  by (simp add: evolves_def)

lemma evolves_trans: "evolves u v \<Longrightarrow> evolves v w \<Longrightarrow> evolves u w"
  by (auto simp: evolves_def)

lemma length_merge_pair: "length (merge_pair i j v) = length v"
  by (simp add: merge_pair_def plus_eq_def)

lemma merge_pair_nth:
  assumes "i < length v" "j < length v" "k < length v"
  shows "merge_pair i j v ! k =
     (if i \<noteq> j \<and> \<not> stale (v ! i) \<and> \<not> stale (v ! j) \<and> merge_key (v ! i) = merge_key (v ! j)
      then (if k = j then (v ! j)\<lparr>stale := True\<rparr>
            else if k = i then (v ! i)\<lparr>operation := operation (v ! i) \<union> operation (v ! j)\<rparr>
            else v ! k)
      else v ! k)"
  using assms by (auto simp: merge_pair_def plus_eq_def mergable_key nth_list_update)

lemma live_keys_merge_pair:
  assumes "i < length v" "j < length v"
  shows "live_keys (merge_pair i j v) = live_keys v"
proof (cases "i \<noteq> j \<and> \<not> stale (v ! i) \<and> \<not> stale (v ! j) \<and> merge_key (v ! i) = merge_key (v ! j)")
  case False
  then have "merge_pair i j v = v"
    using assms by (intro nth_equalityI) (auto simp: merge_pair_nth length_merge_pair)
  then show ?thesis by simp
next
  case True
  show ?thesis
  proof (rule set_eqI, rule iffI)
    fix K assume "K \<in> live_keys (merge_pair i j v)"
    then obtain k where k: "k < length v" "\<not> stale (merge_pair i j v ! k)" "K = merge_key (merge_pair i j v ! k)"
      by (auto simp: live_keys_def length_merge_pair)
    then have "k \<noteq> j" using True assms by (auto simp: merge_pair_nth)
    then have "merge_key (merge_pair i j v ! k) = merge_key (v ! k)" "\<not> stale (v ! k)"
      using True assms k by (auto simp: merge_pair_nth merge_key_def split: if_splits)
    then show "K \<in> live_keys v" using k by (auto simp: live_keys_def)
  next
    fix K assume "K \<in> live_keys v"
    then obtain k where k: "k < length v" "\<not> stale (v ! k)" "K = merge_key (v ! k)"
      by (auto simp: live_keys_def)
    define k' where "k' = (if k = j then i else k)"
    have "k' < length v" "k' \<noteq> j" "merge_key (v ! k') = K" "\<not> stale (v ! k')"
      using True assms k by (auto simp: k'_def)
    then have "\<not> stale (merge_pair i j v ! k')" "merge_key (merge_pair i j v ! k') = K"
      using True assms by (auto simp: merge_pair_nth merge_key_def)
    then show "K \<in> live_keys (merge_pair i j v)"
      using \<open>k' < length v\<close> by (auto simp: live_keys_def length_merge_pair)
  qed
qed

lemma class_ops_merge_pair:
  assumes "i < length v" "j < length v"
  shows "class_ops (merge_pair i j v) K = class_ops v K"
proof (cases "i \<noteq> j \<and> \<not> stale (v ! i) \<and> \<not> stale (v ! j) \<and> merge_key (v ! i) = merge_key (v ! j)")
  case False
  then have "merge_pair i j v = v"
    using assms by (intro nth_equalityI) (auto simp: merge_pair_nth length_merge_pair)
  then show ?thesis by simp
next
  case True
  show ?thesis
  proof (rule set_eqI, rule iffI)
    fix x assume "x \<in> class_ops (merge_pair i j v) K"
    then obtain k where k: "k < length v" "\<not> stale (merge_pair i j v ! k)"
       "merge_key (merge_pair i j v ! k) = K" "x \<in> operation (merge_pair i j v ! k)"
      by (auto simp: class_ops_def length_merge_pair)
    then have kj: "k \<noteq> j" using True assms by (auto simp: merge_pair_nth)
    show "x \<in> class_ops v K"
    proof (cases "k = i")
      case True
      with k kj \<open>_ \<and> _\<close> assms have "merge_key (v ! i) = K" "x \<in> operation (v ! i) \<or> x \<in> operation (v ! j)"
        by (auto simp: merge_pair_nth merge_key_def)
      then show ?thesis using \<open>_ \<and> _\<close> assms by (auto simp: class_ops_def)
    next
      case False
      with k kj \<open>_ \<and> _\<close> assms have "merge_pair i j v ! k = v ! k"
        by (simp add: merge_pair_nth)
      then show ?thesis using k by (auto simp: class_ops_def)
    qed
  next
    fix x assume "x \<in> class_ops v K"
    then obtain k where k: "k < length v" "\<not> stale (v ! k)" "merge_key (v ! k) = K" "x \<in> operation (v ! k)"
      by (auto simp: class_ops_def)
    define k' where "k' = (if k = j then i else k)"
    have "k' < length v" "\<not> stale (merge_pair i j v ! k')" "merge_key (merge_pair i j v ! k') = K"
         "x \<in> operation (merge_pair i j v ! k')"
      using True assms k by (auto simp: k'_def merge_pair_nth merge_key_def)
    then show "x \<in> class_ops (merge_pair i j v) K"
      by (auto simp: class_ops_def length_merge_pair)
  qed
qed

lemma evolves_merge_pair:
  assumes "i < length v" "j < length v"
  shows "evolves v (merge_pair i j v)"
  unfolding evolves_def
  using assms live_keys_merge_pair[OF assms] class_ops_merge_pair[OF assms]
  by (auto simp: length_merge_pair merge_pair_nth merge_key_def)

lemma settled_merge_pair:
  assumes "i < length v" "j < length v" "i \<noteq> j"
  shows "settled i j (merge_pair i j v)"
  using assms by (auto simp: settled_def merge_pair_nth merge_key_def)

lemma settled_evolves:
  assumes "evolves v w" "settled i j v" "i < length v" "j < length v"
  shows "settled i j w"
  using assms by (auto simp: settled_def evolves_def)

lemma fold_merge_pair:
  assumes "i < length v" "\<forall>j\<in>set js. j < length v"
  shows "evolves v (fold (merge_pair i) js v) \<and>
         (\<forall>j\<in>set js. j \<noteq> i \<longrightarrow> settled i j (fold (merge_pair i) js v))"
  using assms
proof (induction js arbitrary: v)
  case Nil
  show ?case by (simp add: evolves_refl)
next
  case (Cons j js)
  let ?v1 = "merge_pair i j v"
  let ?w = "fold (merge_pair i) js ?v1"
  have j: "j < length v" using Cons.prems by simp
  have e1: "evolves v ?v1" using Cons.prems(1) j by (rule evolves_merge_pair)
  have len: "length ?v1 = length v" by (rule length_merge_pair)
  have IH: "evolves ?v1 ?w \<and> (\<forall>j'\<in>set js. j' \<noteq> i \<longrightarrow> settled i j' ?w)"
    using Cons.prems by (intro Cons.IH) (simp_all add: len)
  have "settled i j ?w" if "j \<noteq> i"
  proof -
    have "settled i j ?v1" using Cons.prems(1) j that by (intro settled_merge_pair) auto
    with IH show ?thesis
      using Cons.prems(1) j by (intro settled_evolves[of ?v1 ?w]) (simp_all add: len)
  qed
  moreover have "evolves v ?w" using e1 IH by (blast intro: evolves_trans)
  ultimately show ?case using IH by simp
qed

lemma merge_row_props:
  assumes "i < length v"
  shows "evolves v (merge_row i v)"
    and "\<forall>j<length v. j \<noteq> i \<longrightarrow> settled i j (merge_row i v)"
  using fold_merge_pair[of i v "[0..<length v]"] assms
  by (simp_all add: merge_row_def)

lemma evolves_length: "evolves v w \<Longrightarrow> length w = length v"
  by (simp add: evolves_def)

lemma fold_merge_row:
  assumes "\<forall>i\<in>set is. i < length v"
  shows "evolves v (fold merge_row is v) \<and>
         (\<forall>i\<in>set is. \<forall>j<length v. j \<noteq> i \<longrightarrow> settled i j (fold merge_row is v))"
  using assms
proof (induction "is" arbitrary: v)
  case Nil
  show ?case by (simp add: evolves_refl)
next
  case (Cons i "is")
  let ?v1 = "merge_row i v"
  let ?w = "fold merge_row is ?v1"
  have i: "i < length v" using Cons.prems by simp
  have e1: "evolves v ?v1" using i by (rule merge_row_props)
  have len: "length ?v1 = length v" using e1 by (rule evolves_length)
  have IH: "evolves ?v1 ?w \<and> (\<forall>i'\<in>set is. \<forall>j<length ?v1. j \<noteq> i' \<longrightarrow> settled i' j ?w)"
    using Cons.prems by (intro Cons.IH) (simp_all add: len)
  have "settled i j ?w" if "j < length v" "j \<noteq> i" for j
  proof -
    have "settled i j ?v1" using merge_row_props(2)[OF i] that by simp
    with IH show ?thesis
      using i that by (intro settled_evolves[of ?v1 ?w]) (simp_all add: len)
  qed
  moreover have "evolves v ?w" using e1 IH by (blast intro: evolves_trans)
  ultimately show ?case using IH by (simp add: len)
qed

lemma merge_sweep_props:
  shows "evolves v (merge_sweep v)"
    and "\<forall>i<length v. \<forall>j<length v. j \<noteq> i \<longrightarrow> settled i j (merge_sweep v)"
  using fold_merge_row[of "[0..<length v]" v]
  by (simp_all add: merge_sweep_def)

lemma distinct_map_filter_nth:
  assumes "\<forall>i<length w. \<forall>j<length w. j \<noteq> i \<longrightarrow> P (w ! i) \<longrightarrow> P (w ! j) \<longrightarrow> f (w ! i) \<noteq> f (w ! j)"
  shows "distinct (map f (filter P w))"
  using assms
proof (induction w)
  case Nil
  show ?case by simp
next
  case (Cons x w)
  have tl: "\<forall>i<length w. \<forall>j<length w. j \<noteq> i \<longrightarrow> P (w ! i) \<longrightarrow> P (w ! j) \<longrightarrow> f (w ! i) \<noteq> f (w ! j)"
  proof (intro allI impI)
    fix i j assume "i < length w" "j < length w" "j \<noteq> i" "P (w ! i)" "P (w ! j)"
    then show "f (w ! i) \<noteq> f (w ! j)"
      using Cons.prems[rule_format, of "Suc i" "Suc j"] by simp
  qed
  have hd: "f x \<noteq> f y" if "P x" "y \<in> set w" "P y" for y
  proof -
    from that obtain k where "k < length w" "w ! k = y" by (auto simp: in_set_conv_nth)
    then show ?thesis using Cons.prems[rule_format, of 0 "Suc k"] that by auto
  qed
  show ?case using Cons.IH[OF tl] hd by auto
qed

lemma live_keys_set: "live_keys v = merge_key ` {c \<in> set v. \<not> stale c}"
  by (auto simp: live_keys_def in_set_conv_nth)

lemma class_ops_set: "class_ops v K = \<Union> (operation ` {c \<in> set v. \<not> stale c \<and> merge_key c = K})"
  by (fastforce simp: class_ops_def in_set_conv_nth)

lemma render_class_record:
  assumes "\<not> stale c" "operation c = class_ops v (merge_key c)"
  shows "render_AvcContext c = render_AvcContext (class_record v (merge_key c))"
  using assms by (simp add: render_AvcContext_def class_record_def merge_key_def)

lemma settled_class_ops:
  assumes "\<forall>i<length w. \<forall>j<length w. j \<noteq> i \<longrightarrow> settled i j w"
      and "k < length w" "\<not> stale (w ! k)"
  shows "class_ops w (merge_key (w ! k)) = operation (w ! k)"
proof -
  have "k' = k" if "k' < length w" "\<not> stale (w ! k')" "merge_key (w ! k') = merge_key (w ! k)" for k'
    using assms that unfolding settled_def by metis
  then have "{operation (w ! k') | k'. k' < length w \<and> \<not> stale (w ! k') \<and> merge_key (w ! k') = merge_key (w ! k)}
      = {operation (w ! k)}"
    using assms(2,3) by auto
  then show ?thesis by (simp add: class_ops_def)
qed

lemma survivors_rendered:
  "image_mset render_AvcContext (filter_mset (\<lambda>c. \<not> stale c) (mset (merge_sweep v)))
     = image_mset (\<lambda>K. render_AvcContext (class_record v K)) (mset_set (live_keys v))"
proof -
  let ?w = "merge_sweep v"
  let ?S = "filter (\<lambda>c. \<not> stale c) ?w"
  have ev: "evolves v ?w" by (rule merge_sweep_props)
  have len: "length ?w = length v" using ev by (rule evolves_length)
  have st: "\<forall>i<length ?w. \<forall>j<length ?w. j \<noteq> i \<longrightarrow> settled i j ?w"
    using merge_sweep_props(2)[of v] by (simp add: len)
  have cls: "class_ops ?w K = class_ops v K" for K using ev unfolding evolves_def by blast
  have keys: "live_keys ?w = live_keys v" using ev by (simp add: evolves_def)
  have dist: "distinct (map merge_key ?S)"
    by (rule distinct_map_filter_nth) (use st in \<open>auto simp: settled_def\<close>)
  have "set (map merge_key ?S) = live_keys v"
    using keys by (auto simp: live_keys_set)
  with dist have ms: "mset (map merge_key ?S) = mset_set (live_keys v)"
    by (metis mset_set_set)
  have "render_AvcContext c = render_AvcContext (class_record v (merge_key c))" if "c \<in> set ?S" for c
  proof -
    from that obtain k where k: "k < length ?w" "?w ! k = c" "\<not> stale c"
      by (auto simp: in_set_conv_nth)
    then have "operation c = class_ops v (merge_key c)"
      using settled_class_ops[OF st, of k] cls by simp
    with k show ?thesis by (intro render_class_record)
  qed
  then have "map render_AvcContext ?S = map (\<lambda>K. render_AvcContext (class_record v K)) (map merge_key ?S)"
    by simp
  then have "mset (map render_AvcContext ?S)
     = image_mset (\<lambda>K. render_AvcContext (class_record v K)) (mset (map merge_key ?S))"
    by (metis mset_map)
  then show ?thesis using ms by simp
qed

lemma merge_pair_stale_fixed:
  assumes "i < length v" "j < length v" "k < length v" "stale (v ! k)"
  shows "merge_pair i j v ! k = v ! k"
  using assms by (auto simp: merge_pair_nth)

lemma fold_merge_pair_stale_fixed:
  assumes "i < length v" "\<forall>j\<in>set js. j < length v" "k < length v" "stale (v ! k)"
  shows "fold (merge_pair i) js v ! k = v ! k"
  using assms
proof (induction js arbitrary: v)
  case Nil
  show ?case by simp
next
  case (Cons j js)
  have s: "merge_pair i j v ! k = v ! k"
    using Cons.prems by (intro merge_pair_stale_fixed) simp_all
  have "fold (merge_pair i) js (merge_pair i j v) ! k = merge_pair i j v ! k"
    using Cons.prems s by (intro Cons.IH) (simp_all add: length_merge_pair)
  then show ?case using s by simp
qed

lemma merge_row_stale_fixed:
  assumes "i < length v" "k < length v" "stale (v ! k)"
  shows "merge_row i v ! k = v ! k"
  using fold_merge_pair_stale_fixed[of i v "[0..<length v]" k] assms by (simp add: merge_row_def)

lemma fold_merge_row_stale_fixed:
  assumes "\<forall>i\<in>set is. i < length v" "k < length v" "stale (v ! k)"
  shows "fold merge_row is v ! k = v ! k"
  using assms
proof (induction "is" arbitrary: v)
  case Nil
  show ?case by simp
next
  case (Cons i "is")
  have s: "merge_row i v ! k = v ! k"
    using Cons.prems by (intro merge_row_stale_fixed) simp_all
  have len: "length (merge_row i v) = length v"
    using merge_row_props(1)[of i v] Cons.prems by (simp add: evolves_length)
  have "fold merge_row is (merge_row i v) ! k = merge_row i v ! k"
    using Cons.prems s by (intro Cons.IH) (simp_all add: len)
  then show ?case using s by simp
qed

lemma merge_sweep_stale_fixed:
  assumes "k < length v" "stale (v ! k)"
  shows "merge_sweep v ! k = v ! k"
  using fold_merge_row_stale_fixed[of "[0..<length v]" v k] assms by (simp add: merge_sweep_def)

section \<open>Lemmas on the rule synthesizer\<close>

lemma set_rules_insert: "set (rules_insert x ys) = insert x (set ys)"
  by (induction ys) auto

lemma sorted_rules_insert: "sorted ys \<Longrightarrow> sorted (rules_insert x ys)"
  by (induction ys) (auto simp: set_rules_insert)

lemma distinct_rules_insert: "sorted ys \<Longrightarrow> distinct ys \<Longrightarrow> distinct (rules_insert x ys)"
  by (induction ys) (auto simp: set_rules_insert)

lemma fold_rules_insert:
  assumes "sorted R" "distinct R"
  shows "sorted (fold (\<lambda>entry rules. rules_insert (rule_line entry) rules) cs R)
       \<and> distinct (fold (\<lambda>entry rules. rules_insert (rule_line entry) rules) cs R)
       \<and> set (fold (\<lambda>entry rules. rules_insert (rule_line entry) rules) cs R)
           = rule_line ` set cs \<union> set R"
  using assms
proof (induction cs arbitrary: R)
  case Nil
  then show ?case by simp
next
  case (Cons c cs)
  have "sorted (rules_insert (rule_line c) R)" "distinct (rules_insert (rule_line c) R)"
    using Cons.prems by (simp_all add: sorted_rules_insert distinct_rules_insert)
  from Cons.IH[OF this] show ?case by (auto simp: set_rules_insert)
qed

lemma collect_rules_image: "set (collect_rules cs) = rule_line ` set cs"
  using fold_rules_insert[of "[]" cs] by (simp add: collect_rules_def)

lemma collect_rules_sorted: "sorted (collect_rules cs)" "distinct (collect_rules cs)"
  using fold_rules_insert[of "[]" cs] by (simp_all add: collect_rules_def)

lemma collect_rules_eqI:
  "set (collect_rules xs) = set (collect_rules ys) \<Longrightarrow> collect_rules xs = collect_rules ys"
  by (intro sorted_distinct_set_unique collect_rules_sorted)

lemma render_stale: "stale c \<Longrightarrow> render_AvcContext c = []"
  by (simp add: render_AvcContext_def)

lemma collect_rules_split:
  "set (collect_rules w) =
     (\<lambda>l. l @ [CHR 0x0A]) ` set_mset (image_mset render_AvcContext (filter_mset (\<lambda>c. \<not> stale c) (mset w)))
     \<union> (if size (filter_mset (\<lambda>c. \<not> stale c) (mset w)) \<noteq> length w then {[CHR 0x0A]} else {})"
proof -
  have a: "size (filter_mset (\<lambda>c. \<not> stale c) (mset w)) \<noteq> length w \<longleftrightarrow> (\<exists>c\<in>set w. stale c)"
  proof -
    have sz: "size (filter_mset (\<lambda>c. \<not> stale c) (mset w)) = length (filter (\<lambda>c. \<not> stale c) w)"
      by (metis mset_filter size_mset)
    show ?thesis
    proof (cases "\<exists>c\<in>set w. stale c")
      case True
      then obtain c where "c \<in> set w" "\<not> \<not> stale c" by auto
      then have "length (filter (\<lambda>c. \<not> stale c) w) < length w" by (rule length_filter_less)
      with True sz show ?thesis by simp
    next
      case False
      then have "filter (\<lambda>c. \<not> stale c) w = w" by (simp add: filter_id_conv)
      with False sz show ?thesis by simp
    qed
  qed
  have "set w = {c \<in> set w. \<not> stale c} \<union> {c \<in> set w. stale c}" by auto
  then have "rule_line ` set w = rule_line ` {c \<in> set w. \<not> stale c} \<union> rule_line ` {c \<in> set w. stale c}"
    by (metis image_Un)
  moreover have "rule_line ` {c \<in> set w. \<not> stale c}
      = (\<lambda>l. l @ [CHR 0x0A]) ` set_mset (image_mset render_AvcContext (filter_mset (\<lambda>c. \<not> stale c) (mset w)))"
    by (auto simp: rule_line_def)
  moreover have "rule_line ` {c \<in> set w. stale c} = (if \<exists>c\<in>set w. stale c then {[CHR 0x0A]} else {})"
    by (auto simp: rule_line_def render_stale)
  ultimately show ?thesis
    unfolding collect_rules_image a by simp
qed

section \<open>Worked scenarios of the specification\<close>

lemma scenario2_parse:
  "AvcContext_ctor g0 p0
     (''avc: denied { ioctl } for comm='' @ [CHR 0x22] @ ''bar'' @ [CHR 0x22]
      @ '' scontext=u:r:mydomain:s0 tcontext=u:object_r:vendor_device:s0''
      @ '' tclass=chr_file permissive=0'')
   = Inr rec_ioctl"
  by (simp add: eval_defs rec_ioctl_def fun_eq_iff)

lemma scenario2_render:
  "render_AvcContext rec_ioctl = ''allow mydomain vendor_device:chr_file ioctl;''"
  by (simp add: render_AvcContext_def rec_ioctl_def)

lemma scenario3_merge:
  "merge_sweep [rec_ioctl, rec_open]
   = [rec_ioctl\<lparr>operation := {''ioctl'', ''open''}\<rparr>, rec_open\<lparr>stale := True\<rparr>]"
  by (auto simp: merge_sweep_def merge_row_def merge_pair_def plus_eq_def mergable_def
      rec_ioctl_def rec_open_def upt_rec)

lemma scenario3_render:
  "render_AvcContext (rec_ioctl\<lparr>operation := {''ioctl'', ''open''}\<rparr>)
   = ''allow mydomain vendor_device:chr_file { ioctl open };''"
  by (simp add: render_AvcContext_def rec_ioctl_def)

lemma scenario3_output:
  "render_AvcContexts (merge_sweep [rec_ioctl, rec_open])
   = [CHR 0x0A] @ ''allow mydomain vendor_device:chr_file { ioctl open };'' @ [CHR 0x0A]"
  unfolding scenario3_merge
  by (simp add: render_AvcContexts_def collect_rules_def rule_line_def render_AvcContext_def
      rec_ioctl_def rec_open_def)

section \<open>Theorems\<close>

text \<open>
  C1, as the code has it. The constructor returns an object exactly on the parseable
  lines: those with the marker, a status token and, for the status \<^verbatim>\<open>granted\<close> or
  \<^verbatim>\<open>denied\<close>, a closing brace that is reached and is not the last token. On every
  other line it throws or reads past the end of the token sequence. Every line in which
  the denial filter's pattern is found is parseable, and the pattern is found in every
  line that contains a text of the pattern's shape. The object returned is either still
  marked stale, or it is well formed: \<^verbatim>\<open>scontext\<close>, \<^verbatim>\<open>tcontext\<close>, \<^verbatim>\<open>tclass\<close> and
  \<^verbatim>\<open>permissive\<close> were all found among the attribute tokens of the line, the permissive
  value reads as 0 or 1, the fields hold these values, and the residual attributes hold
  none of the four keys.
\<close>

theorem ctor_total_iff_parseable:
  "((\<exists>r. AvcContext_ctor g0 p0 line = Inr r) \<longleftrightarrow> parseable line)
   \<and> (regex_search kAvcMessageRegEX line \<noteq> None \<longrightarrow>
        parseable line \<and> (\<exists>r. AvcContext_ctor g0 p0 line = Inr r))
   \<and> (is_separator ws1 \<and> is_separator ws2 \<and> groups \<noteq> [] \<and> list_all is_group groups
        \<and> isspace a \<and> isspace b \<and> isspace c \<longrightarrow>
      regex_search kAvcMessageRegEX (pre @ avc_match_text ws1 ws2 groups a b c @ rest) \<noteq> None)
   \<and> (\<forall>r. AvcContext_ctor g0 p0 line = Inr r \<longrightarrow>
          stale r
          \<or> (\<exists>t0 status rest' it sc tc cl pv.
                marker_tokens line = t0 # status # rest'
              \<and> (status = ''granted'' \<or> status = ''denied'')
              \<and> it \<noteq> [] \<and> suffix it rest'
              \<and> fold add_attribute it Map.empty ''scontext'' = Some sc
              \<and> fold add_attribute it Map.empty ''tcontext'' = Some tc
              \<and> fold add_attribute it Map.empty ''tclass'' = Some cl
              \<and> fold add_attribute it Map.empty ''permissive'' = Some pv
              \<and> (extract_int pv = Some 0 \<or> extract_int pv = Some 1)
              \<and> granted r = (status = ''granted'')
              \<and> scontext r = SEContext_ctor sc \<and> tcontext r = SEContext_ctor tc \<and> tclass r = cl
              \<and> permissive r = (extract_int pv = Some 1)
              \<and> misc_attributes r = fold add_attribute it Map.empty |` (- required_keys)))"
proof (intro conjI impI allI)
  show "(\<exists>r. AvcContext_ctor g0 p0 line = Inr r) \<longleftrightarrow> parseable line"
    by (rule ctor_total_iff)
next
  assume m: "regex_search kAvcMessageRegEX line \<noteq> None"
  then show "parseable line" by (rule filtered_parseable)
  from m obtain rest' where "regex_search kAvcMessageRegEX line = Some rest'" by auto
  then show "\<exists>r. AvcContext_ctor g0 p0 line = Inr r" by (rule ctor_total_on_match)
next
  assume "is_separator ws1 \<and> is_separator ws2 \<and> groups \<noteq> [] \<and> list_all is_group groups
        \<and> isspace a \<and> isspace b \<and> isspace c"
  then have "kAvcMessageRegEX (avc_match_text ws1 ws2 groups a b c @ rest) = Some rest"
    by (intro kAvcMessageRegEX_complete) simp_all
  then show "regex_search kAvcMessageRegEX (pre @ avc_match_text ws1 ws2 groups a b c @ rest) \<noteq> None"
    by (intro regex_search_append) simp
next
  fix r
  assume c: "AvcContext_ctor g0 p0 line = Inr r"
  show "stale r
          \<or> (\<exists>t0 status rest' it sc tc cl pv.
                marker_tokens line = t0 # status # rest'
              \<and> (status = ''granted'' \<or> status = ''denied'')
              \<and> it \<noteq> [] \<and> suffix it rest'
              \<and> fold add_attribute it Map.empty ''scontext'' = Some sc
              \<and> fold add_attribute it Map.empty ''tcontext'' = Some tc
              \<and> fold add_attribute it Map.empty ''tclass'' = Some cl
              \<and> fold add_attribute it Map.empty ''permissive'' = Some pv
              \<and> (extract_int pv = Some 0 \<or> extract_int pv = Some 1)
              \<and> granted r = (status = ''granted'')
              \<and> scontext r = SEContext_ctor sc \<and> tcontext r = SEContext_ctor tc \<and> tclass r = cl
              \<and> permissive r = (extract_int pv = Some 1)
              \<and> misc_attributes r = fold add_attribute it Map.empty |` (- required_keys))"
  proof (cases "stale r")
    case True
    then show ?thesis by simp
  next
    case False
    with c show ?thesis by (intro disjI2 ctor_live)
  qed
qed

theorem ctor_total_iff_parseable_witness:
  "incomplete_line
     = ''[   11.002] audit: ''
       @ avc_match_text ''  '' ''  '' [(CHR '' '', ''read'')] CHR '' '' CHR '' '' CHR '' ''
       @ '' pid=1 comm=init''
   \<and> regex_search kAvcMessageRegEX incomplete_line \<noteq> None
   \<and> parseable incomplete_line
   \<and> AvcContext_ctor False False incomplete_line = Inr rec_unparsed \<and> stale rec_unparsed
   \<and> regex_search kAvcMessageRegEX grant_line = None
   \<and> parseable grant_line
   \<and> AvcContext_ctor False False grant_line = Inr rec_grant \<and> \<not> stale rec_grant
   \<and> scontext rec_grant = SEContext_ctor ''u:r:shell:s0''
   \<and> \<not> parseable ''avc: denied { read write''"
proof -
  have l: "incomplete_line
     = ''[   11.002] audit: ''
       @ avc_match_text ''  '' ''  '' [(CHR '' '', ''read'')] CHR '' '' CHR '' '' CHR '' ''
       @ '' pid=1 comm=init''"
    by (simp add: incomplete_line_def avc_match_text_def group_text_def)
  have s: "is_separator ''  '' \<and> is_separator ''  '' \<and> [(CHR '' '', ''read'')] \<noteq> []
        \<and> list_all is_group [(CHR '' '', ''read'')]
        \<and> isspace CHR '' '' \<and> isspace CHR '' '' \<and> isspace CHR '' ''"
    by (simp add: is_separator_def is_group_def isspace_def is_word_def is_digit_def)
  note t1 = ctor_total_iff_parseable
      [of False False incomplete_line "''  ''" "''  ''" "[(CHR '' '', ''read'')]"
          "CHR '' ''" "CHR '' ''" "CHR '' ''" "''[   11.002] audit: ''" "'' pid=1 comm=init''"]
  have m: "regex_search kAvcMessageRegEX incomplete_line \<noteq> None"
    using s t1 unfolding l [symmetric] by blast
  then have p: "parseable incomplete_line" using t1 by blast
  have c: "AvcContext_ctor False False incomplete_line = Inr rec_unparsed"
    by (simp add: incomplete_line_def eval_defs rec_unparsed_def fun_eq_iff)
  have st: "stale rec_unparsed" by (simp add: rec_unparsed_def)
  note t2 = ctor_total_iff_parseable [of False False grant_line]
  have g: "AvcContext_ctor False False grant_line = Inr rec_grant"
    by (simp add: grant_line_def eval_defs rec_grant_def fun_eq_iff)
  then have pg: "parseable grant_line" using t2 by blast
  have ng: "regex_search kAvcMessageRegEX grant_line = None"
    by (simp add: grant_line_def rx_defs)
  have live: "\<not> stale rec_grant" by (simp add: rec_grant_def)
  have sc: "scontext rec_grant = SEContext_ctor ''u:r:shell:s0''"
    by (simp add: rec_grant_def eval_defs)
  note t3 = ctor_total_iff_parseable [of False False "''avc: denied { read write''"]
  have "AvcContext_ctor False False ''avc: denied { read write'' = Inl PastTheEnd"
    by (simp add: eval_defs)
  then have np: "\<not> parseable ''avc: denied { read write''" using t3 by auto
  show ?thesis using l m p c st ng pg g live sc np by blast
qed

theorem ctor_unterminated_counterexample:
  "AvcContext_ctor False False ''avc: denied { read write'' = Inl PastTheEnd"
  by (simp add: eval_defs)

text \<open>
  C2, as the code has it. For a denial line of the documented shape with at least one
  operation name between the braces, the constructor returns a record that is not stale
  and holds the status, the set of operation names, the source and target labels as
  \<^verbatim>\<open>SEContext\<close> makes them, the target class, the permissive flag, and as residual
  attributes exactly the collected pairs without the four required keys. \<^verbatim>\<open>SEContext\<close>
  keeps the short name of a canonical label and any other label verbatim, and
  \<^verbatim>\<open>TrimDoubleQuote\<close> strips the quotes exactly from a quoted non-empty text.
\<close>

theorem parse_valid_line:
  assumes "find_sub ''avc:'' pre = None"
    and "status = ''granted'' \<or> status = ''denied''"
    and "ops \<noteq> []" and "list_all (\<lambda>op. is_token op \<and> op \<noteq> ''}'') ops"
    and "list_all (\<lambda>kv. CHR ''='' \<notin> set (fst kv)
                         \<and> list_all (\<lambda>c. \<not> isspace c) (fst kv @ snd kv)) kvs"
    and "list_all is_separator seps"
    and "length seps = length (denial_tokens status ops kvs) - 1"
    and "list_all isspace trail"
    and "collected kvs ''scontext'' = Some sc" and "collected kvs ''tcontext'' = Some tc"
    and "collected kvs ''tclass'' = Some cl" and "collected kvs ''permissive'' = Some pv"
    and "pv = ''0'' \<or> pv = ''1''"
  shows "AvcContext_ctor g0 p0 (pre @ interleave (denial_tokens status ops kvs) seps @ trail)
       = Inr \<lparr>granted = (status = ''granted''), operation = set ops,
              scontext = SEContext_ctor sc, tcontext = SEContext_ctor tc, tclass = cl,
              misc_attributes = collected kvs |` (- required_keys),
              permissive = (pv = ''1''), stale = False\<rparr>
     \<and> (\<forall>s name. canonical_label s name \<longrightarrow> SEContext_ctor s = MkSEContext name)
     \<and> (\<forall>s. (\<forall>name. \<not> canonical_label s name) \<longrightarrow> SEContext_ctor s = MkSEContext s)
     \<and> (\<forall>w. w \<noteq> [] \<longrightarrow> TrimDoubleQuote (CHR 0x22 # w @ [CHR 0x22]) = w)
     \<and> (\<forall>v. (\<forall>w. w \<noteq> [] \<longrightarrow> v \<noteq> CHR 0x22 # w @ [CHR 0x22]) \<longrightarrow> TrimDoubleQuote v = v)"
  using ctor_valid_line [OF assms] SEContext_ctor_canonical SEContext_ctor_verbatim
    TrimDoubleQuote_quoted TrimDoubleQuote_other
  by blast

theorem parse_valid_line_witness:
  "find_sub ''avc:'' kernel_prefix = None
   \<and> list_all is_separator kernel_separators
   \<and> length kernel_separators = length (denial_tokens ''denied'' [''ioctl''] kernel_pairs) - 1
   \<and> collected kernel_pairs ''permissive'' = Some ''0''
   \<and> AvcContext_ctor False True
        (''[   12.345] type=1400 audit(1700000000.123:45): avc:  denied  { ioctl } for  pid=612''
         @ '' comm='' @ [CHR 0x22] @ ''bar'' @ [CHR 0x22]
         @ '' scontext=u:r:mydomain:s0 tcontext=u:object_r:vendor_device:s0''
         @ '' tclass=chr_file permissive=0'')
     = Inr \<lparr>granted = False, operation = {''ioctl''}, scontext = MkSEContext ''mydomain'',
            tcontext = MkSEContext ''vendor_device'', tclass = ''chr_file'',
            misc_attributes = [''pid'' \<mapsto> ''612'', ''comm'' \<mapsto> ''bar''],
            permissive = False, stale = False\<rparr>"
proof -
  have h1: "find_sub ''avc:'' kernel_prefix = None"
    by (simp add: kernel_prefix_def)
  have h2: "''denied'' = ''granted'' \<or> ''denied'' = ''denied''" by simp
  have h3: "[''ioctl''] \<noteq> []" by simp
  have h4: "list_all (\<lambda>op. is_token op \<and> op \<noteq> ''}'') [''ioctl'']"
    by (simp add: is_token_def isspace_def)
  have h5: "list_all (\<lambda>kv. CHR ''='' \<notin> set (fst kv)
                         \<and> list_all (\<lambda>c. \<not> isspace c) (fst kv @ snd kv)) kernel_pairs"
    by (simp add: kernel_pairs_def isspace_def)
  have h6: "list_all is_separator kernel_separators"
    by (simp add: kernel_separators_def is_separator_def isspace_def)
  have h7: "length kernel_separators = length (denial_tokens ''denied'' [''ioctl''] kernel_pairs) - 1"
    by (simp add: kernel_separators_def denial_tokens_def kernel_pairs_def)
  have h8: "list_all isspace []" by simp
  have h9: "collected kernel_pairs ''scontext'' = Some ''u:r:mydomain:s0''"
    and h10: "collected kernel_pairs ''tcontext'' = Some ''u:object_r:vendor_device:s0''"
    and h11: "collected kernel_pairs ''tclass'' = Some ''chr_file''"
    and h12: "collected kernel_pairs ''permissive'' = Some ''0''"
    by (simp_all add: collected_def kernel_pairs_def TrimDoubleQuote_def)
  have h13: "''0'' = ''0'' \<or> ''0'' = ''1''" by simp
  have line: "kernel_prefix @ interleave (denial_tokens ''denied'' [''ioctl''] kernel_pairs) kernel_separators @ []
      = ''[   12.345] type=1400 audit(1700000000.123:45): avc:  denied  { ioctl } for  pid=612''
         @ '' comm='' @ [CHR 0x22] @ ''bar'' @ [CHR 0x22]
         @ '' scontext=u:r:mydomain:s0 tcontext=u:object_r:vendor_device:s0''
         @ '' tclass=chr_file permissive=0''"
    by (simp add: kernel_prefix_def denial_tokens_def kernel_pairs_def kernel_separators_def
        attr_token_def)
  have s1: "SEContext_ctor ''u:r:mydomain:s0'' = MkSEContext ''mydomain''"
    and s2: "SEContext_ctor ''u:object_r:vendor_device:s0'' = MkSEContext ''vendor_device''"
    by (simp_all add: eval_defs)
  have m: "collected kernel_pairs |` (- required_keys) = [''pid'' \<mapsto> ''612'', ''comm'' \<mapsto> ''bar'']"
    by (auto simp: fun_eq_iff restrict_map_def required_keys_def collected_def kernel_pairs_def
        TrimDoubleQuote_def)
  show ?thesis
    using h1 h6 h7 h12
      parse_valid_line [OF h1 h2 h3 h4 h5 h6 h7 h8 h9 h10 h11 h12 h13, of False True]
    unfolding line s1 s2 m by simp
qed

theorem parse_empty_braces_counterexample:
  "AvcContext_ctor False False
     ''avc: denied { } for scontext=u:r:a:s0 tcontext=u:r:b:s0 tclass=file permissive=0''
   = Inl PastTheEnd"
  by (simp add: eval_defs)

text \<open>
  C3, evaluated on the code. On a property-only denial line seen for the first time, and
  on a line with property name and destination, the pattern matches but the filter
  returns false: a successful match always has four sub-matches, so neither
  \<^verbatim>\<open>size() == 3\<close> nor \<^verbatim>\<open>size() == 1\<close> holds, and the set of properties seen stays empty.
\<close>

theorem libc_filter_rejects_property_denials:
  "regex_search kPropertyAccessRegEX prop_only_line
     = Some [''libc    : Access denied finding property '' @ [CHR 0x22] @ ''vendor.camera.aux'' @ [CHR 0x22],
             [CHR 0x22] @ ''vendor.camera.aux'' @ [CHR 0x22], [], []]
   \<and> libcPropFilterContext_filter {} prop_only_line = (False, {})
   \<and> regex_search kPropertyAccessRegEX prop_dest_line
     = Some [''libc    : Unable to set property '' @ [CHR 0x22] @ ''ctl.start'' @ [CHR 0x22]
               @ '' to '' @ [CHR 0x22] @ ''vendor.foo@1.0'' @ [CHR 0x22],
             [CHR 0x22] @ ''ctl.start'' @ [CHR 0x22],
             '' to '' @ [CHR 0x22] @ ''vendor.foo@1.0'' @ [CHR 0x22],
             ''vendor.foo@1.0'']
   \<and> libcPropFilterContext_filter {} prop_dest_line = (False, {})"
proof -
  have "regex_search kPropertyAccessRegEX prop_only_line
     = Some [''libc    : Access denied finding property '' @ [CHR 0x22] @ ''vendor.camera.aux'' @ [CHR 0x22],
             [CHR 0x22] @ ''vendor.camera.aux'' @ [CHR 0x22], [], []]"
    by (simp add: prop_only_line_def prop_defs)
  moreover have "regex_search kPropertyAccessRegEX prop_dest_line
     = Some [''libc    : Unable to set property '' @ [CHR 0x22] @ ''ctl.start'' @ [CHR 0x22]
               @ '' to '' @ [CHR 0x22] @ ''vendor.foo@1.0'' @ [CHR 0x22],
             [CHR 0x22] @ ''ctl.start'' @ [CHR 0x22],
             '' to '' @ [CHR 0x22] @ ''vendor.foo@1.0'' @ [CHR 0x22],
             ''vendor.foo@1.0'']"
    by (simp add: prop_dest_line_def prop_defs)
  ultimately show ?thesis
    by (simp add: libcPropFilterContext_filter_def)
qed

text \<open>
  C5, as the code has it. When the denial filter matches a line, it reports the match
  and appends the object constructed from the line to the shared collection, also when
  parsing failed. A failed parse leaves that object stale: it is rendered as no text,
  and \<^verbatim>\<open>operator+=\<close> neither changes it nor takes anything from it.
\<close>

theorem filter_match_appends_record:
  assumes "regex_search kAvcMessageRegEX line \<noteq> None"
    and "find_sub ''untrusted_app'' line = None"
  shows "\<exists>entry. AvcContext_ctor g0 p0 line = Inr entry
           \<and> AvcFilterContext_filter (Some v) g0 p0 line = Inr (True, Some (v @ [entry]))
           \<and> AvcFilterContext_filter None g0 p0 line = Inr (True, None)
           \<and> (stale entry \<longrightarrow>
                render_AvcContext entry = []
                \<and> (\<forall>a. plus_eq a entry = (a, entry) \<and> plus_eq entry a = (entry, a)))"
proof -
  from assms(1) obtain rest where "regex_search kAvcMessageRegEX line = Some rest" by auto
  then obtain entry where e: "AvcContext_ctor g0 p0 line = Inr entry"
    using ctor_total_on_match by blast
  have "AvcFilterContext_filter (Some v) g0 p0 line = Inr (True, Some (v @ [entry]))"
    and "AvcFilterContext_filter None g0 p0 line = Inr (True, None)"
    using assms e by (simp_all add: AvcFilterContext_filter_def)
  moreover have "render_AvcContext entry = []" if "stale entry"
    using that by (rule render_stale)
  moreover have "plus_eq a entry = (a, entry) \<and> plus_eq entry a = (entry, a)" if "stale entry" for a
    using that by (simp add: plus_eq_def)
  ultimately show ?thesis using e by blast
qed

theorem filter_match_appends_record_witness:
  "regex_search kAvcMessageRegEX incomplete_line \<noteq> None
   \<and> find_sub ''untrusted_app'' incomplete_line = None
   \<and> AvcFilterContext_filter (Some [rec_ioctl]) False False incomplete_line
       = Inr (True, Some [rec_ioctl, rec_unparsed])
   \<and> stale rec_unparsed \<and> render_AvcContext rec_unparsed = []
   \<and> plus_eq rec_ioctl rec_unparsed = (rec_ioctl, rec_unparsed)"
proof -
  have h1: "regex_search kAvcMessageRegEX incomplete_line \<noteq> None"
    by (simp add: incomplete_line_def rx_defs)
  have h2: "find_sub ''untrusted_app'' incomplete_line = None"
    by (simp add: incomplete_line_def)
  have c: "AvcContext_ctor False False incomplete_line = Inr rec_unparsed"
    by (simp add: incomplete_line_def eval_defs rec_unparsed_def fun_eq_iff)
  have s: "stale rec_unparsed" by (simp add: rec_unparsed_def)
  show ?thesis
    using h1 h2 s c filter_match_appends_record [OF h1 h2, of False False "[rec_ioctl]"]
    by auto
qed

theorem filter_failed_parse_counterexample:
  "AvcFilterContext_filter (Some []) False False incomplete_line = Inr (True, Some [rec_unparsed])
   \<and> stale rec_unparsed
   \<and> collect_rules [rec_unparsed] = [[CHR 0x0A]]"
  by (simp add: AvcFilterContext_filter_def incomplete_line_def rx_defs eval_defs rec_unparsed_def
      fun_eq_iff collect_rules_def rule_line_def render_AvcContext_def)

text \<open>
  C4. The merge engine is insertion-order independent: for two collections that are
  permutations of each other, the all-pairs sweep followed by rendering gives the same
  multiset of rendered lines of the surviving (non-stale) records, and the same final
  output text.
\<close>

theorem merge_sweep_order_independent:
  assumes "mset xs = mset ys"
  shows "image_mset render_AvcContext (filter_mset (\<lambda>c. \<not> stale c) (mset (merge_sweep xs)))
       = image_mset render_AvcContext (filter_mset (\<lambda>c. \<not> stale c) (mset (merge_sweep ys)))
     \<and> render_AvcContexts (merge_sweep xs) = render_AvcContexts (merge_sweep ys)"
proof -
  have "set xs = set ys" using assms by (rule mset_eq_setD)
  then have "live_keys xs = live_keys ys" "class_record xs = class_record ys"
    by (simp_all add: live_keys_set class_record_def class_ops_set fun_eq_iff)
  then have m: "image_mset render_AvcContext (filter_mset (\<lambda>c. \<not> stale c) (mset (merge_sweep xs)))
       = image_mset render_AvcContext (filter_mset (\<lambda>c. \<not> stale c) (mset (merge_sweep ys)))"
    by (simp add: survivors_rendered)
  have len: "length (merge_sweep xs) = length (merge_sweep ys)"
    using merge_sweep_props(1)[of xs] merge_sweep_props(1)[of ys] mset_eq_length[OF assms]
    by (simp add: evolves_length)
  from m have "size (filter_mset (\<lambda>c. \<not> stale c) (mset (merge_sweep xs)))
      = size (filter_mset (\<lambda>c. \<not> stale c) (mset (merge_sweep ys)))"
    by (metis size_image_mset)
  with m len have "set (collect_rules (merge_sweep xs)) = set (collect_rules (merge_sweep ys))"
    by (simp add: collect_rules_split)
  then have "collect_rules (merge_sweep xs) = collect_rules (merge_sweep ys)"
    by (rule collect_rules_eqI)
  then have "render_AvcContexts (merge_sweep xs) = render_AvcContexts (merge_sweep ys)"
    by (simp add: render_AvcContexts_def)
  with m show ?thesis by simp
qed

theorem merge_sweep_order_independent_witness:
  "mset [rec_ioctl, rec_open, rec_admin] = mset [rec_admin, rec_open, rec_ioctl]
   \<and> image_mset render_AvcContext
        (filter_mset (\<lambda>c. \<not> stale c) (mset (merge_sweep [rec_ioctl, rec_open, rec_admin])))
     = image_mset render_AvcContext
        (filter_mset (\<lambda>c. \<not> stale c) (mset (merge_sweep [rec_admin, rec_open, rec_ioctl])))
   \<and> render_AvcContexts (merge_sweep [rec_ioctl, rec_open, rec_admin])
     = render_AvcContexts (merge_sweep [rec_admin, rec_open, rec_ioctl])"
proof -
  have p: "mset [rec_ioctl, rec_open, rec_admin] = mset [rec_admin, rec_open, rec_ioctl]"
    by simp
  show ?thesis
    using p merge_sweep_order_independent [OF p] by simp
qed

text \<open>
  C6. A record whose operation set contains \<^verbatim>\<open>sys_admin\<close> is rendered as no text at all,
  whatever else the set holds; in the final output set it leaves only the bare line
  terminator, so every rule line of the output comes from the other records.
\<close>

theorem sys_admin_suppressed:
  assumes "''sys_admin'' \<in> operation c"
  shows "render_AvcContext c = []
       \<and> collect_rules (cs1 @ c # cs2) = rules_insert [CHR 0x0A] (collect_rules (cs1 @ cs2))"
proof -
  have r: "render_AvcContext c = []" using assms by (simp add: render_AvcContext_def)
  have "set (collect_rules (cs1 @ c # cs2))
      = set (rules_insert [CHR 0x0A] (collect_rules (cs1 @ cs2)))"
    using r by (auto simp: collect_rules_image set_rules_insert rule_line_def)
  moreover have "sorted (rules_insert [CHR 0x0A] (collect_rules (cs1 @ cs2)))"
    and "distinct (rules_insert [CHR 0x0A] (collect_rules (cs1 @ cs2)))"
    by (simp_all add: sorted_rules_insert distinct_rules_insert collect_rules_sorted)
  ultimately have "collect_rules (cs1 @ c # cs2) = rules_insert [CHR 0x0A] (collect_rules (cs1 @ cs2))"
    by (intro sorted_distinct_set_unique collect_rules_sorted)
  with r show ?thesis by simp
qed

theorem sys_admin_suppressed_witness:
  "''sys_admin'' \<in> operation rec_admin \<and> \<not> stale rec_admin
   \<and> render_AvcContext rec_admin = []
   \<and> collect_rules ([rec_ioctl] @ rec_admin # [rec_open])
       = rules_insert [CHR 0x0A] (collect_rules ([rec_ioctl] @ [rec_open]))"
proof -
  have h: "''sys_admin'' \<in> operation rec_admin" by (simp add: rec_admin_def)
  show ?thesis
    using h sys_admin_suppressed [OF h, of "[rec_ioctl]" "[rec_open]"]
    by (simp add: rec_admin_def)
qed

text \<open>
  C7, as the code has it. A record whose operation set is empty is skipped by the first
  guard of the renderer, stale or not: no text is written for it, and the entry it adds
  to the output set is the bare line terminator. The degenerate line
  \<^verbatim>\<open>allow S T:C ;\<close> is never produced.
\<close>

theorem empty_operation_renders_nothing:
  assumes "operation c = {}"
  shows "render_AvcContext c = [] \<and> rule_line c = [CHR 0x0A]"
  using assms by (simp add: render_AvcContext_def rule_line_def)

theorem empty_operation_renders_nothing_witness:
  "operation rec_noops = {} \<and> \<not> stale rec_noops
   \<and> render_AvcContext rec_noops = [] \<and> rule_line rec_noops = [CHR 0x0A]"
proof -
  have h: "operation rec_noops = {}" by (simp add: rec_noops_def)
  show ?thesis
    using h empty_operation_renders_nothing [OF h] by (simp add: rec_noops_def)
qed

theorem empty_operation_degenerate_counterexample:
  "\<not> stale rec_noops \<and> operation rec_noops = {}
   \<and> render_AvcContext rec_noops \<noteq> ''allow mydomain vendor_device:chr_file ;''"
  by (simp add: rec_noops_def render_AvcContext_def)

text \<open>
  C8, as the code has it. For two records that are both not stale, \<^verbatim>\<open>operator+=\<close> merges
  exactly when granted flag, source context, target context and target class are pairwise
  equal; the attribute maps and the permissive flags are not looked at. On a merge the
  operations of the second are unioned into the first and the second is marked stale;
  otherwise both are unchanged.
\<close>

theorem plus_eq_live:
  assumes "\<not> stale a" and "\<not> stale b"
  shows "plus_eq a b =
     (if granted a = granted b \<and> scontext a = scontext b \<and>
         tcontext a = tcontext b \<and> tclass a = tclass b
      then (a\<lparr>operation := operation a \<union> operation b\<rparr>, b\<lparr>stale := True\<rparr>)
      else (a, b))"
  using assms by (simp add: plus_eq_def mergable_def)

theorem plus_eq_live_witness:
  "\<not> stale rec_ioctl \<and> \<not> stale rec_open
   \<and> misc_attributes rec_ioctl \<noteq> misc_attributes rec_open
   \<and> permissive rec_ioctl \<noteq> permissive rec_open
   \<and> plus_eq rec_ioctl rec_open
       = (rec_ioctl\<lparr>operation := {''ioctl'', ''open''}\<rparr>, rec_open\<lparr>stale := True\<rparr>)"
proof -
  have h: "\<not> stale rec_ioctl" "\<not> stale rec_open"
    by (simp_all add: rec_ioctl_def rec_open_def)
  have "misc_attributes rec_ioctl ''comm'' \<noteq> misc_attributes rec_open ''comm''"
    by (simp add: rec_ioctl_def rec_open_def)
  then have "misc_attributes rec_ioctl \<noteq> misc_attributes rec_open" by metis
  then show ?thesis
    using h plus_eq_live [OF h] by (auto simp: rec_ioctl_def rec_open_def)
qed

theorem plus_eq_stale_equal_keys_counterexample:
  "granted rec_absorbed = granted rec_open \<and> scontext rec_absorbed = scontext rec_open
   \<and> tcontext rec_absorbed = tcontext rec_open \<and> tclass rec_absorbed = tclass rec_open
   \<and> plus_eq rec_absorbed rec_open = (rec_absorbed, rec_open)
   \<and> \<not> stale (snd (plus_eq rec_absorbed rec_open))
   \<and> \<not> operation rec_open \<subseteq> operation (fst (plus_eq rec_absorbed rec_open))"
  by (simp add: rec_absorbed_def rec_open_def plus_eq_def)

text \<open>
  C9. The final output is deduplicated and sorted: the entries written out are in
  ascending lexicographic order, no entry occurs twice, and they are exactly the rendered
  lines (each with its line terminator) of the records, however many records render alike;
  the output text is these entries one after the other.
\<close>

theorem output_sorted_unique:
  "sorted (collect_rules cs) \<and> distinct (collect_rules cs)
   \<and> set (collect_rules cs) = rule_line ` set cs
   \<and> render_AvcContexts cs = concat (collect_rules cs)"
proof -
  let ?step = "\<lambda>entry rules. rules_insert (rule_line entry) rules"
  have inv: "sorted (fold ?step cs R) \<and> distinct (fold ?step cs R)
             \<and> set (fold ?step cs R) = rule_line ` set cs \<union> set R"
    if "sorted R" "distinct R" for R
    using that
  proof (induction cs arbitrary: R)
    case Nil
    then show ?case by simp
  next
    case (Cons c cs)
    have "sorted (rules_insert (rule_line c) R)"
      using Cons.prems(1) by (rule sorted_rules_insert)
    moreover have "distinct (rules_insert (rule_line c) R)"
      using Cons.prems by (rule distinct_rules_insert)
    ultimately have "sorted (fold ?step cs (rules_insert (rule_line c) R))
        \<and> distinct (fold ?step cs (rules_insert (rule_line c) R))
        \<and> set (fold ?step cs (rules_insert (rule_line c) R))
            = rule_line ` set cs \<union> set (rules_insert (rule_line c) R)"
      by (rule Cons.IH)
    then show ?case by (auto simp: set_rules_insert)
  qed
  have "sorted (collect_rules cs) \<and> distinct (collect_rules cs)
        \<and> set (collect_rules cs) = rule_line ` set cs"
    using inv[of "[]"] by (simp add: collect_rules_def)
  then show ?thesis by (simp add: render_AvcContexts_def)
qed

text \<open>
  C10. Whenever at least one of the two records has its stale flag set, \<^verbatim>\<open>operator+=\<close>
  leaves both records exactly as they were: no operations are unioned and no flag is set.
  So a record that is stale is never changed again by the merge sweep, and nothing is
  ever taken from it.
\<close>

theorem plus_eq_stale_unchanged:
  "(stale a \<or> stale b \<longrightarrow> plus_eq a b = (a, b))
   \<and> (k < length v \<and> stale (v ! k) \<longrightarrow> merge_sweep v ! k = v ! k)"
  by (auto simp: plus_eq_def merge_sweep_stale_fixed)

theorem plus_eq_stale_unchanged_witness:
  "(stale rec_absorbed \<or> stale rec_open)
   \<and> plus_eq rec_absorbed rec_open = (rec_absorbed, rec_open)
   \<and> plus_eq rec_open rec_absorbed = (rec_open, rec_absorbed)
   \<and> (1::nat) < length [rec_ioctl, rec_absorbed, rec_open]
   \<and> merge_sweep [rec_ioctl, rec_absorbed, rec_open] ! 1 = rec_absorbed"
proof -
  have h: "stale rec_absorbed \<or> stale rec_open" by (simp add: rec_absorbed_def)
  have h': "stale rec_open \<or> stale rec_absorbed" by (simp add: rec_absorbed_def)
  have k: "(1::nat) < length [rec_ioctl, rec_absorbed, rec_open]
           \<and> stale ([rec_ioctl, rec_absorbed, rec_open] ! 1)"
    by (simp add: rec_absorbed_def)
  show ?thesis
    using h h' k
      plus_eq_stale_unchanged [of rec_absorbed rec_open 1 "[rec_ioctl, rec_absorbed, rec_open]"]
      plus_eq_stale_unchanged [of rec_open rec_absorbed 1 "[rec_ioctl, rec_absorbed, rec_open]"]
    by simp
qed

end
